theory Spec2Isabelle
  imports
    Main
    "HOL-Library.Word"
    "HOL-Library.Char_ord"
    "HOL-Library.List_Lexorder"
begin

unbundle bit_operations_syntax

section \<open>Word Hunt solver: the model of \<open>src/solver/wordhunt_cpp.cpp\<close>\<close>

text \<open>
  The C++ translation unit is embedded function by function. Conventions:
  \<^item> \<open>int\<close> is a 32-bit two's complement word where arithmetic on it can leave the range
    (\<open>word_score\<close>), and \<open>long long\<close> a 64-bit one (\<open>total\<close>); a cast \<open>(int)x.size()\<close>
    keeps the low 32 bits (\<open>int_cast\<close>); the entries of the child table, which are \<open>-1\<close>
    or results of that cast, are \<open>int\<close> of HOL, and cell indices, which come from loop
    counters and the adjacency table only, are \<open>nat\<close>;
  \<^item> the fixed-size arrays \<open>int next[26]\<close> and \<open>std::array<char,16>\<close> are total functions
    on their index type, read only below their bound (an access beyond the bound is the
    error \<open>OutOfBounds\<close>);
  \<^item> a \<open>throw\<close> is the left injection of a sum; undefined behaviour of an unchecked
    \<open>operator[]\<close> is the error \<open>OutOfBounds\<close>;
  \<^item> \<open>std::isalpha\<close>, \<open>std::tolower\<close> and the stream's whitespace are those of the
    \<open>"C"\<close> locale on single bytes;
  \<^item> strings and vectors are lists of any length; running out of memory is not modelled.
\<close>

subsection \<open>Errors\<close>

datatype error =
    RuntimeError string   \<comment> \<open>\<open>throw std::runtime_error(msg)\<close>\<close>
  | CastError             \<comment> \<open>\<open>py::cast<std::string>\<close> of an object that is no string\<close>
  | OutOfBounds           \<comment> \<open>an unchecked index outside its container\<close>

subsection \<open>Characters\<close>

definition char_code :: "char \<Rightarrow> int" where
  \<comment> \<open>the value of a (signed) \<open>char\<close> after promotion to \<open>int\<close>\<close>
  "char_code c = (let n = of_char c :: int in if n < 128 then n else n - 256)"

definition isalpha :: "char \<Rightarrow> bool" where
  "isalpha c = (let n = of_char c :: nat in (65 \<le> n \<and> n \<le> 90) \<or> (97 \<le> n \<and> n \<le> 122))"

definition tolower :: "char \<Rightarrow> char" where
  "tolower c = (let n = of_char c :: nat in if 65 \<le> n \<and> n \<le> 90 then char_of (n + 32) else c)"

definition isspace :: "char \<Rightarrow> bool" where
  "isspace c = (let n = of_char c :: nat in n = 32 \<or> (9 \<le> n \<and> n \<le> 13))"

definition isdigit :: "char \<Rightarrow> bool" where
  "isdigit c = (let n = of_char c :: nat in 48 \<le> n \<and> n \<le> 57)"

definition lower_letter :: "char \<Rightarrow> bool" where
  \<comment> \<open>the letters \<open>a\<close> to \<open>z\<close>\<close>
  "lower_letter c = (let n = of_char c :: nat in 97 \<le> n \<and> n \<le> 122)"

subsection \<open>\<open>word_score\<close>\<close>

type_synonym cint = "32 word"

definition word_score :: "cint \<Rightarrow> cint" where
  "word_score len =
     (if len <s 3 then 0
      else if len = 3 then 100
      else if len = 4 then 400
      else if len = 5 then 800
      else if len = 6 then 1400
      else if len = 7 then 1800
      else 2200 + 400 * (len - 8))"


subsection \<open>The casts \<open>(int)x.size()\<close>\<close>

definition int_cast :: "nat \<Rightarrow> int" where
  \<comment> \<open>a \<open>size_t\<close> converted to \<open>int\<close>: the low 32 bits, read as two's complement\<close>
  "int_cast n = sint (word_of_nat n :: cint)"

subsection \<open>\<open>struct Trie\<close>\<close>

text \<open>
  \<open>Trie::Node\<close>: the child table \<open>int next[26]\<close> (\<open>-1\<close> is "absent") and the flag
  \<open>terminal\<close>. The table is named \<open>next'\<close> here. A \<open>Trie\<close> is its only member, the
  vector \<open>t\<close> of nodes.
\<close>

record node =
  next' :: "nat \<Rightarrow> int"
  terminal :: bool

type_synonym trie = "node list"

definition Node :: node where
  \<comment> \<open>\<open>Node() { std::fill(std::begin(next), std::end(next), -1); }\<close>\<close>
  "Node = \<lparr>next' = (\<lambda>_. - 1), terminal = False\<rparr>"

definition Trie :: trie where
  \<comment> \<open>\<open>Trie() { t.emplace_back(); }\<close>\<close>
  "Trie = [Node]"

definition in_range :: "trie \<Rightarrow> int \<Rightarrow> bool" where
  \<comment> \<open>\<open>t[v]\<close> is an element of the vector\<close>
  "in_range t v = (0 \<le> v \<and> nat v < length t)"

text \<open>
  \<open>Trie::insert\<close>: the loop over the characters of \<open>w\<close>, started at \<open>v = 0\<close>. The code
  does not check \<open>k\<close>: a character outside \<open>a..z\<close> indexes \<open>next\<close> out of bounds. The
  index of a new node is \<open>(int)t.size()\<close>.
\<close>

fun Trie_insert_from :: "trie \<Rightarrow> int \<Rightarrow> string \<Rightarrow> error + trie" where
  "Trie_insert_from t v [] =
     (if in_range t v then Inr (t[nat v := (t ! nat v)\<lparr>terminal := True\<rparr>])
      else Inl OutOfBounds)"
| "Trie_insert_from t v (c # w) =
     (let k = char_code c - 97 in
      if \<not> in_range t v \<or> k < 0 \<or> 26 \<le> k then Inl OutOfBounds
      else
        let t' = (if next' (t ! nat v) (nat k) = - 1
                  then t[nat v := (t ! nat v)
                          \<lparr>next' := (next' (t ! nat v))(nat k := int_cast (length t))\<rparr>] @ [Node]
                  else t)
        in Trie_insert_from t' (next' (t' ! nat v) (nat k)) w)"

definition Trie_insert :: "trie \<Rightarrow> string \<Rightarrow> error + trie" where
  "Trie_insert t w = Trie_insert_from t 0 w"

subsection \<open>\<open>build_neighbors_4x4\<close>\<close>

definition idx :: "int \<Rightarrow> int \<Rightarrow> int" where
  "idx r c = r * 4 + c"

definition neighbors_of :: "int \<Rightarrow> int \<Rightarrow> nat list" where
  \<comment> \<open>the two inner loops over \<open>dr\<close> and \<open>dc\<close>, in their order\<close>
  "neighbors_of r c =
     concat (map (\<lambda>dr. concat (map (\<lambda>dc.
        if dr = 0 \<and> dc = 0 then []
        else (let nr = r + dr; nc = c + dc in
              if 0 \<le> nr \<and> nr < 4 \<and> 0 \<le> nc \<and> nc < 4 then [nat (idx nr nc)] else []))
        [- 1, 0, 1])) [- 1, 0, 1])"

definition build_neighbors_4x4 :: "nat list list" where
  \<comment> \<open>the outer loops visit \<open>v = idx r c\<close> in the order \<open>0, 1, ..., 15\<close>\<close>
  "build_neighbors_4x4 =
     concat (map (\<lambda>r. map (\<lambda>c. neighbors_of r c) [0, 1, 2, 3]) [0, 1, 2, 3])"

subsection \<open>\<open>dfs_all_words\<close>\<close>

type_synonym board = "nat \<Rightarrow> char"
type_synonym search_state = "string \<times> string list"

text \<open>
  The two objects passed by reference, the path string \<open>cur\<close> and the set \<open>outWords\<close>, are
  threaded through every call and returned; \<open>usedMask\<close> is passed by value, so it is an
  argument only. \<open>outWords\<close> is a list without repetition: \<open>std::unordered_set::insert\<close> is
  \<open>List.insert\<close>. \<open>dfs_loop\<close> is the range-for over \<open>nbr[cell]\<close>.
\<close>

function dfs_all_words ::
    "nat \<Rightarrow> 16 word \<Rightarrow> int \<Rightarrow> board \<Rightarrow> nat list list \<Rightarrow> trie \<Rightarrow> string \<Rightarrow> string list
      \<Rightarrow> error + search_state"
  and dfs_loop ::
    "nat list \<Rightarrow> 16 word \<Rightarrow> int \<Rightarrow> board \<Rightarrow> nat list list \<Rightarrow> trie \<Rightarrow> string \<Rightarrow> string list
      \<Rightarrow> error + search_state"
where
  "dfs_all_words cell usedMask trieNode b nb t cur outWords =
     (if 16 \<le> cell then Inl OutOfBounds
      else
        let ch = b cell; k = char_code ch - 97 in
        if k < 0 \<or> 26 \<le> k then Inr (cur, outWords)
        else if \<not> in_range t trieNode then Inl OutOfBounds
        else
          let nxt = next' (t ! nat trieNode) (nat k) in
          if nxt = - 1 then Inr (cur, outWords)
          else
            let usedMask' = usedMask OR push_bit cell 1;
                cur' = cur @ [ch]
            in
            if \<not> in_range t nxt then Inl OutOfBounds
            else
              let outWords' =
                    (if terminal (t ! nat nxt) \<and> 3 \<le> length cur'
                     then List.insert cur' outWords else outWords)
              in
              if length nb \<le> cell then Inl OutOfBounds
              else
                (case dfs_loop (nb ! cell) usedMask' nxt b nb t cur' outWords' of
                   Inl e \<Rightarrow> Inl e
                 | Inr (cur'', outWords'') \<Rightarrow> Inr (butlast cur'', outWords'')))"
| "dfs_loop [] usedMask nxt b nb t cur outWords = Inr (cur, outWords)"
| "dfs_loop (to # tos) usedMask nxt b nb t cur outWords =
     (if bit usedMask to then dfs_loop tos usedMask nxt b nb t cur outWords
      else
        (case dfs_all_words to usedMask nxt b nb t cur outWords of
           Inl e \<Rightarrow> Inl e
         | Inr (cur', outWords') \<Rightarrow> dfs_loop tos usedMask nxt b nb t cur' outWords'))"
  by pat_completeness auto


text \<open>
  Termination: the number of cells whose bit is clear in \<open>usedMask\<close> falls with every
  nested call, since a call is made only on a cell whose bit is clear and sets it.
\<close>

definition unused :: "16 word \<Rightarrow> nat" where
  "unused m = card {i. i < 16 \<and> \<not> bit m i}"

lemma bit_mark:
  "bit (m OR push_bit cell (1 :: 16 word)) i \<longleftrightarrow> bit m i \<or> (i = cell \<and> cell < 16)"
  by (auto simp: bit_or_iff bit_push_bit_iff bit_1_iff simp del: push_bit_of_1)

lemma unused_mark:
  assumes "cell < 16" "\<not> bit m cell"
  shows "unused (m OR push_bit cell 1) < unused m"
proof -
  have "{i. i < 16 \<and> \<not> bit (m OR push_bit cell 1) i} \<subset> {i. i < 16 \<and> \<not> bit m i}"
    using assms unfolding bit_mark by auto
  then show ?thesis unfolding unused_def by (intro psubset_card_mono) auto
qed

lemma unused_mark_le: "unused (m OR push_bit cell 1) \<le> unused m"
  unfolding unused_def bit_mark by (intro card_mono) auto

termination dfs_all_words
  apply (relation "inv_image (less_than <*lex*> less_than)
     (\<lambda>x. case x of
        Inl (cell, m, _) \<Rightarrow> (2 * unused m + (if bit m cell then 2 else 0), 0)
      | Inr (tos, m, _) \<Rightarrow> (2 * unused m + 1, length tos))")
  subgoal by (intro wf_inv_image wf_lex_prod wf_less_than)
  subgoal for cell usedMask
    using unused_mark [of cell usedMask] unused_mark_le [of usedMask cell]
    by (cases "bit usedMask cell") (simp_all del: push_bit_of_1)
  subgoal by simp
  subgoal by simp
  subgoal by simp
  done

text \<open>
  The same search with a budget of nested calls: \<open>dfs_fuel n\<close> may nest \<open>n\<close> frames of
  \<open>dfs_all_words\<close> and returns \<open>None\<close> when a further frame would be needed.
\<close>

function (sequential) dfs_fuel ::
    "nat \<Rightarrow> nat \<Rightarrow> 16 word \<Rightarrow> int \<Rightarrow> board \<Rightarrow> nat list list \<Rightarrow> trie \<Rightarrow> string \<Rightarrow> string list
      \<Rightarrow> (error + search_state) option"
  and dfs_loop_fuel ::
    "nat \<Rightarrow> nat list \<Rightarrow> 16 word \<Rightarrow> int \<Rightarrow> board \<Rightarrow> nat list list \<Rightarrow> trie \<Rightarrow> string
      \<Rightarrow> string list \<Rightarrow> (error + search_state) option"
where
  "dfs_fuel 0 cell usedMask trieNode b nb t cur outWords = None"
| "dfs_fuel (Suc n) cell usedMask trieNode b nb t cur outWords =
     (if 16 \<le> cell then Some (Inl OutOfBounds)
      else
        let ch = b cell; k = char_code ch - 97 in
        if k < 0 \<or> 26 \<le> k then Some (Inr (cur, outWords))
        else if \<not> in_range t trieNode then Some (Inl OutOfBounds)
        else
          let nxt = next' (t ! nat trieNode) (nat k) in
          if nxt = - 1 then Some (Inr (cur, outWords))
          else
            let usedMask' = usedMask OR push_bit cell 1;
                cur' = cur @ [ch]
            in
            if \<not> in_range t nxt then Some (Inl OutOfBounds)
            else
              let outWords' =
                    (if terminal (t ! nat nxt) \<and> 3 \<le> length cur'
                     then List.insert cur' outWords else outWords)
              in
              if length nb \<le> cell then Some (Inl OutOfBounds)
              else
                (case dfs_loop_fuel n (nb ! cell) usedMask' nxt b nb t cur' outWords' of
                   None \<Rightarrow> None
                 | Some (Inl e) \<Rightarrow> Some (Inl e)
                 | Some (Inr (cur'', outWords'')) \<Rightarrow> Some (Inr (butlast cur'', outWords''))))"
| "dfs_loop_fuel n [] usedMask nxt b nb t cur outWords = Some (Inr (cur, outWords))"
| "dfs_loop_fuel n (to # tos) usedMask nxt b nb t cur outWords =
     (if bit usedMask to then dfs_loop_fuel n tos usedMask nxt b nb t cur outWords
      else
        (case dfs_fuel n to usedMask nxt b nb t cur outWords of
           None \<Rightarrow> None
         | Some (Inl e) \<Rightarrow> Some (Inl e)
         | Some (Inr (cur', outWords')) \<Rightarrow> dfs_loop_fuel n tos usedMask nxt b nb t cur' outWords'))"
  by pat_completeness auto

termination dfs_fuel
  by (relation "inv_image (less_than <*lex*> less_than)
     (\<lambda>x. case x of
        Inl (n, _) \<Rightarrow> (2 * n, 0)
      | Inr (n, tos, _) \<Rightarrow> (2 * n + 1, length tos))") auto

subsection \<open>\<open>parse_board_any\<close>\<close>

text \<open>
  The Python object handed to \<open>solve\<close>: a \<open>str\<close> (its bytes), a sequence, or anything
  else. \<open>py::cast<std::string>\<close> succeeds on a \<open>str\<close> only.
\<close>

datatype pyobj = Str string | Seq "pyobj list" | Other

fun is_str :: "pyobj \<Rightarrow> bool" where
  "is_str (Str s) = True"
| "is_str _ = False"

fun cast_string :: "pyobj \<Rightarrow> error + string" where
  "cast_string (Str s) = Inr s"
| "cast_string _ = Inl CastError"

fun letters :: "string \<Rightarrow> string \<Rightarrow> string" where
  \<comment> \<open>\<open>for (unsigned char c : s) if (std::isalpha(c)) t.push_back((char)std::tolower(c));\<close>\<close>
  "letters [] t = t"
| "letters (c # s) t = letters s (if isalpha c then t @ [tolower c] else t)"

fun rows_letters :: "pyobj list \<Rightarrow> string \<Rightarrow> error + string" where
  \<comment> \<open>the loop over the four rows\<close>
  "rows_letters [] t = Inr t"
| "rows_letters (x # xs) t =
     (case cast_string x of
        Inl e \<Rightarrow> Inl e
      | Inr row \<Rightarrow> rows_letters xs (letters row t))"

fun cells_letters :: "pyobj list \<Rightarrow> string \<Rightarrow> error + string" where
  \<comment> \<open>the loop over the sixteen items\<close>
  "cells_letters [] t = Inr t"
| "cells_letters (x # xs) t =
     (case cast_string x of
        Inl e \<Rightarrow> Inl e
      | Inr cell \<Rightarrow>
          if length cell \<noteq> 1 \<or> \<not> isalpha (hd cell)
          then Inl (RuntimeError ''board list must contain 16 single letters'')
          else cells_letters xs (t @ [tolower (hd cell)]))"

definition to_board :: "string \<Rightarrow> board" where
  \<comment> \<open>\<open>array<char, 16> b{}; for (int i = 0; i < 16; i++) b[i] = t[i];\<close>\<close>
  "to_board t = (\<lambda>i. if i < 16 then t ! i else CHR 0x00)"

definition parse_board_any :: "pyobj \<Rightarrow> error + board" where
  "parse_board_any board_obj =
     (case board_obj of
        Str s \<Rightarrow>
          (let t = letters s [] in
           if length t \<noteq> 16 then Inl (RuntimeError ''board string must contain 16 letters'')
           else Inr (to_board t))
      | Seq seq \<Rightarrow>
          if length seq = 4 \<and> is_str (seq ! 0) then
            (case rows_letters seq [] of
               Inl e \<Rightarrow> Inl e
             | Inr t \<Rightarrow>
                 if length t \<noteq> 16
                 then Inl (RuntimeError ''4 rows must contain 16 letters total'')
                 else Inr (to_board t))
          else if length seq = 16 then
            (case cells_letters seq [] of
               Inl e \<Rightarrow> Inl e
             | Inr t \<Rightarrow> Inr (to_board t))
          else Inl (RuntimeError
            ''board must be a 16-letter string, 4x4 list of strings, or list of 16 letters'')
      | Other \<Rightarrow> Inl (RuntimeError
          ''board must be a 16-letter string, 4x4 list of strings, or list of 16 letters''))"


subsection \<open>\<open>random_letter\<close> and \<open>generate_board_py\<close>\<close>

text \<open>
  \<open>std::mt19937\<close> and \<open>std::discrete_distribution<int>\<close> belong to the C++ standard
  library, not to this program; they are parameters of the model. \<open>seed_engine\<close> is the
  constructor \<open>std::mt19937 rng(seed)\<close> and \<open>dist_call\<close> is \<open>dist(rng)\<close>: from the state
  of the distribution object and of the engine it gives the drawn index and both new
  states. The distribution object is \<open>static thread_local\<close>: it outlives the call, so its
  state is an argument and a result of \<open>generate_board_py\<close>; the engine is a local of each
  call.
\<close>

definition random_letter ::
    "('d \<Rightarrow> 'g \<Rightarrow> int \<times> 'd \<times> 'g) \<Rightarrow> 'd \<Rightarrow> 'g \<Rightarrow> char \<times> 'd \<times> 'g" where
  "random_letter dist_call dist rng =
     (case dist_call dist rng of (k, dist', rng') \<Rightarrow> (char_of (97 + k), dist', rng'))"

fun generate_loop ::
    "nat \<Rightarrow> ('d \<Rightarrow> 'g \<Rightarrow> int \<times> 'd \<times> 'g) \<Rightarrow> 'd \<Rightarrow> 'g \<Rightarrow> string \<Rightarrow> string \<times> 'd" where
  \<comment> \<open>\<open>for (...) out.push_back(random_letter(rng));\<close> with the number of rounds left\<close>
  "generate_loop 0 dist_call dist rng out = (out, dist)"
| "generate_loop (Suc n) dist_call dist rng out =
     (case random_letter dist_call dist rng of
        (c, dist', rng') \<Rightarrow> generate_loop n dist_call dist' rng' (out @ [c]))"

definition generate_board_py ::
    "(32 word \<Rightarrow> 'g) \<Rightarrow> ('d \<Rightarrow> 'g \<Rightarrow> int \<times> 'd \<times> 'g) \<Rightarrow> 'd \<Rightarrow> 32 word \<Rightarrow> string \<times> 'd" where
  "generate_board_py seed_engine dist_call dist seed =
     generate_loop 16 dist_call dist (seed_engine seed) []"

subsection \<open>\<open>struct Dictionary\<close>\<close>

record dictionary =
  trie :: trie
  nbr :: "nat list list"

fun tokens_from :: "string \<Rightarrow> string \<Rightarrow> string list" where
  \<comment> \<open>the tokens that \<open>in >> w\<close> reads in turn: maximal runs without whitespace\<close>
  "tokens_from [] w = (if w = [] then [] else [w])"
| "tokens_from (c # cs) w =
     (if isspace c then (if w = [] then tokens_from cs [] else w # tokens_from cs [])
      else tokens_from cs (w @ [c]))"

fun scan_token :: "string \<Rightarrow> string \<Rightarrow> bool \<times> string" where
  \<comment> \<open>the loop over the characters of \<open>w\<close>, which stops at the first non-letter\<close>
  "scan_token [] s = (True, s)"
| "scan_token (ch # w) s =
     (if \<not> isalpha ch then (False, s) else scan_token w (s @ [tolower ch]))"

fun load_tokens :: "string list \<Rightarrow> trie \<Rightarrow> error + trie" where
  \<comment> \<open>\<open>while (in >> w) { ... if (ok && (int)s.size() >= 3) trie.insert(s); }\<close>\<close>
  "load_tokens [] t = Inr t"
| "load_tokens (w # ws) t =
     (case scan_token w [] of
        (ok, s) \<Rightarrow>
          if ok \<and> 3 \<le> int_cast (length s) then
            (case Trie_insert t s of Inl e \<Rightarrow> Inl e | Inr t' \<Rightarrow> load_tokens ws t')
          else load_tokens ws t)"

text \<open>
  The constructor. The file system is a map from paths to contents; a path outside its
  domain cannot be opened.
\<close>

definition Dictionary :: "(string \<rightharpoonup> string) \<Rightarrow> string \<Rightarrow> error + dictionary" where
  "Dictionary fs dict_path =
     (case fs dict_path of
        None \<Rightarrow> Inl (RuntimeError (''Failed to open dictionary file: '' @ dict_path))
      | Some content \<Rightarrow>
          (case load_tokens (tokens_from content []) Trie of
             Inl e \<Rightarrow> Inl e
           | Inr t \<Rightarrow> Inr \<lparr>trie = t, nbr = build_neighbors_4x4\<rparr>))"

fun solve_loop ::
    "nat list \<Rightarrow> board \<Rightarrow> dictionary \<Rightarrow> string \<Rightarrow> string list \<Rightarrow> error + search_state" where
  \<comment> \<open>\<open>for (int i = 0; i < 16; i++) dfs_all_words(i, 0, 0, board, nbr, trie, cur, found);\<close>\<close>
  "solve_loop [] b d cur found = Inr (cur, found)"
| "solve_loop (i # is) b d cur found =
     (case dfs_all_words i 0 0 b (nbr d) (trie d) cur found of
        Inl e \<Rightarrow> Inl e
      | Inr (cur', found') \<Rightarrow> solve_loop is b d cur' found')"

definition solve_cmp :: "string \<Rightarrow> string \<Rightarrow> bool" where
  \<comment> \<open>the comparator handed to \<open>std::sort\<close>\<close>
  "solve_cmp a b = (if length a \<noteq> length b then length b < length a else a < b)"

text \<open>
  \<open>std::sort\<close> is modelled by insertion sort. The elements of \<open>found\<close> are pairwise
  different and \<open>solve_cmp\<close> is a strict total order, so there is one sorted arrangement
  only (\<open>sort_cmp_unique\<close> below), whatever the algorithm and whatever the order in which
  the unordered set is iterated.
\<close>

fun insort_cmp :: "string \<Rightarrow> string list \<Rightarrow> string list" where
  "insort_cmp x [] = [x]"
| "insort_cmp x (y # ys) = (if solve_cmp y x then y # insort_cmp x ys else x # y # ys)"

definition sort_cmp :: "string list \<Rightarrow> string list" where
  "sort_cmp xs = foldr insort_cmp xs []"

definition total_score :: "string list \<Rightarrow> 64 word" where
  \<comment> \<open>\<open>long long total = 0; for (auto& w : words) total += word_score((int)w.size());\<close>\<close>
  "total_score ws = fold (\<lambda>w total. total + scast (word_score (word_of_nat (length w)))) ws 0"

text \<open>The score of one word, \<open>word_score((int)w.size())\<close>, as a Python integer.\<close>

definition score_of :: "string \<Rightarrow> int" where
  "score_of w = sint (word_score (word_of_nat (length w)))"

text \<open>
  \<open>solve\<close> is a \<open>const\<close> member function: the first component of its result is the
  dictionary after the call. The second is the exception thrown or the returned tuple,
  whose second component is the Python integer made of \<open>total\<close>.
\<close>

definition solve :: "dictionary \<Rightarrow> pyobj \<Rightarrow> dictionary \<times> (error + string list \<times> int)" where
  "solve d board_obj =
     (d,
      case parse_board_any board_obj of
        Inl e \<Rightarrow> Inl e
      | Inr b \<Rightarrow>
          (case solve_loop [0..<16] b d [] [] of
             Inl e \<Rightarrow> Inl e
           | Inr (cur, found) \<Rightarrow>
               (let ws = sort_cmp found in Inr (ws, sint (total_score ws)))))"

section \<open>The specification's notions\<close>

text \<open>
  These definitions follow the words of the specification, to be compared with the
  code. King-move adjacency: two cells are adjacent if they differ by at most 1 in row
  and at most 1 in column, the cell itself excluded; cell \<open>i\<close> is at row \<open>i div 4\<close>,
  column \<open>i mod 4\<close>.
\<close>

definition spec_adjacent :: "nat \<Rightarrow> nat \<Rightarrow> bool" where
  "spec_adjacent i j =
     (i < 16 \<and> j < 16 \<and> i \<noteq> j \<and>
      \<bar>int (i div 4) - int (j div 4)\<bar> \<le> 1 \<and> \<bar>int (i mod 4) - int (j mod 4)\<bar> \<le> 1)"

fun spec_steps :: "nat list \<Rightarrow> bool" where
  \<comment> \<open>consecutive cells of the walk are adjacent\<close>
  "spec_steps (i # j # p) = (spec_adjacent i j \<and> spec_steps (j # p))"
| "spec_steps p = True"

definition spec_walk :: "nat list \<Rightarrow> bool" where
  \<comment> \<open>a self-avoiding walk: a non-empty path over adjacent cells that never revisits a cell\<close>
  "spec_walk p = (p \<noteq> [] \<and> list_all (\<lambda>i. i < 16) p \<and> distinct p \<and> spec_steps p)"

definition spec_spellable :: "board \<Rightarrow> string \<Rightarrow> bool" where
  "spec_spellable b w = (\<exists>p. spec_walk p \<and> map b p = w)"

text \<open>
  The build policy: a token is accepted if every character is alphabetic and its
  lowercased form has length at least 3; the accepted tokens are inserted lowercased.
\<close>

definition spec_accepted :: "string \<Rightarrow> bool" where
  "spec_accepted w = (list_all isalpha w \<and> 3 \<le> length (map tolower w))"

definition spec_dictionary_words :: "string list \<Rightarrow> string set" where
  "spec_dictionary_words toks = {map tolower w | w. w \<in> set toks \<and> spec_accepted w}"

text \<open>
  The order of the result: descending length, then ascending lexical order.
\<close>

definition spec_order :: "string \<Rightarrow> string \<Rightarrow> bool" where
  "spec_order a b = (length b < length a \<or> (length a = length b \<and> a < b))"

section \<open>Boards and the words of a trie\<close>

text \<open>A valid board: sixteen lowercase letters.\<close>

definition valid_board :: "board \<Rightarrow> bool" where
  "valid_board b = list_all (\<lambda>i. lower_letter (b i)) [0..<16]"

text \<open>
  The words of a trie: the strings that lead from the root, child by child, to a
  terminal node.
\<close>

fun trie_walk :: "trie \<Rightarrow> int \<Rightarrow> string \<Rightarrow> int option" where
  "trie_walk t v [] = Some v"
| "trie_walk t v (c # w) =
     (let k = char_code c - 97 in
      if k < 0 \<or> 26 \<le> k \<or> \<not> in_range t v then None
      else (let n = next' (t ! nat v) (nat k) in
            if n = - 1 then None else trie_walk t n w))"

definition trie_contains :: "trie \<Rightarrow> string \<Rightarrow> bool" where
  "trie_contains t w =
     (case trie_walk t 0 w of
        None \<Rightarrow> False
      | Some v \<Rightarrow> in_range t v \<and> terminal (t ! nat v))"

section \<open>Notions used in the proofs\<close>

text \<open>
  The invariant of a trie under construction: the root exists, every child entry is
  absent or the index of a node, and no node is reached from the root by two different
  strings (the nodes form a tree).
\<close>

definition trie_inv :: "trie \<Rightarrow> bool" where
  "trie_inv t =
     (t \<noteq> [] \<and>
      (\<forall>v k. v < length t \<longrightarrow> next' (t ! v) k = - 1 \<or> in_range t (next' (t ! v) k)) \<and>
      (\<forall>w1 w2 u. trie_walk t 0 w1 = Some u \<longrightarrow> trie_walk t 0 w2 = Some u \<longrightarrow> w1 = w2))"

text \<open>
  The test that the constructor applies to a token, and the strings it inserts. They
  differ from the specification's notions on tokens of \<open>2^31\<close> characters or more.
\<close>

definition code_accepted :: "string \<Rightarrow> bool" where
  "code_accepted w = (list_all isalpha w \<and> 3 \<le> int_cast (length w))"

definition code_dictionary_words :: "string list \<Rightarrow> string set" where
  "code_dictionary_words toks = {map tolower w | w. w \<in> set toks \<and> code_accepted w}"

text \<open>
  The new trie when \<open>Trie::insert\<close> appends a node as the child \<open>c\<close> of \<open>v\<close>, as long as
  the trie has fewer than \<open>2^31\<close> nodes.
\<close>

definition add_edge :: "trie \<Rightarrow> int \<Rightarrow> char \<Rightarrow> trie" where
  "add_edge t v c =
     t[nat v := (t ! nat v)\<lparr>next' := (next' (t ! nat v))(nat (char_code c - 97) := int (length t))\<rparr>]
       @ [Node]"

text \<open>
  Abbreviations for two expressions of \<open>dfs_all_words\<close>: the child entry read from the
  trie, and the conditional insertion into \<open>outWords\<close>.
\<close>

definition child :: "trie \<Rightarrow> int \<Rightarrow> char \<Rightarrow> int" where
  "child t v c = next' (t ! nat v) (nat (char_code c - 97))"

definition record_word :: "trie \<Rightarrow> int \<Rightarrow> string \<Rightarrow> string list \<Rightarrow> string list" where
  "record_word t nxt cur' outWords =
     (if terminal (t ! nat nxt) \<and> 3 \<le> length cur' then List.insert cur' outWords else outWords)"

text \<open>
  The paths that the search follows from a cell: every cell is on the board and not in
  \<open>used\<close>, and each next cell is taken from the neighbour list of the cell before. The
  strings found from a cell are the spellings of such paths that the trie accepts from
  the current node, prefixed by \<open>cur\<close>.
\<close>

fun code_path :: "nat list list \<Rightarrow> nat set \<Rightarrow> nat list \<Rightarrow> bool" where
  "code_path nb used [] = False"
| "code_path nb used (c # p) =
     (c < 16 \<and> c \<notin> used \<and> (p = [] \<or> (hd p \<in> set (nb ! c) \<and> code_path nb (insert c used) p)))"

definition accepts :: "trie \<Rightarrow> int \<Rightarrow> string \<Rightarrow> bool" where
  "accepts t v w =
     (case trie_walk t v w of None \<Rightarrow> False | Some u \<Rightarrow> in_range t u \<and> terminal (t ! nat u))"

definition found_from ::
    "board \<Rightarrow> nat list list \<Rightarrow> trie \<Rightarrow> nat set \<Rightarrow> int \<Rightarrow> string \<Rightarrow> nat \<Rightarrow> string set" where
  "found_from b nb t used v cur cell =
     {cur @ map b p | p. p \<noteq> [] \<and> hd p = cell \<and> code_path nb used p \<and> accepts t v (map b p) \<and>
        3 \<le> length cur + length p}"

definition marked :: "16 word \<Rightarrow> nat set" where
  "marked m = {i. bit m i}"

definition nbr_ok :: "nat list list \<Rightarrow> bool" where
  "nbr_ok nb = (length nb = 16 \<and> (\<forall>v \<in> set nb. \<forall>j \<in> set v. j < 16))"

text \<open>
  \<open>total\<close> is a \<open>long long\<close>. It cannot overflow: the found words are spellings of
  self-avoiding paths, of which there are at most \<open>path_bound 16\<close>, and each scores at
  most 5400.
\<close>

fun path_bound :: "nat \<Rightarrow> nat" where
  "path_bound 0 = 1"
| "path_bound (Suc n) = 1 + Suc n * path_bound n"

text \<open>
  The number of nested frames of \<open>dfs_all_words\<close> that a call can need: one for the call
  itself when its cell is marked or off the board, and one for every cell still unmarked.
\<close>

definition frames :: "nat \<Rightarrow> 16 word \<Rightarrow> nat" where
  "frames cell m = (if 16 \<le> cell then 1 else unused m + (if bit m cell then 1 else 0))"

section \<open>Characters\<close>

text \<open>Facts about the character classes and the letter index \<open>c - 'a'\<close>.\<close>

lemma of_char_less_256: "of_char c < (256 :: nat)"
  by (metis of_char_mod_256 mod_less_divisor zero_less_numeral)

lemma of_char_int: "(of_char c :: int) = int (of_char c)"
  by (simp add: of_char_def)

lemma char_code_alt:
  "char_code c = (if of_char c < (128 :: nat) then int (of_char c) else int (of_char c) - 256)"
  by (simp add: char_code_def Let_def of_char_int)

lemma char_code_inj: "char_code c = char_code d \<Longrightarrow> c = d"
proof -
  assume h: "char_code c = char_code d"
  define m :: nat where "m = of_char c"
  define n :: nat where "n = of_char d"
  have "m < 256" "n < 256" by (simp_all add: m_def n_def of_char_less_256)
  moreover have "(if m < 128 then int m else int m - 256) = (if n < 128 then int n else int n - 256)"
    using h unfolding char_code_alt m_def n_def .
  ultimately have "m = n" by (auto split: if_splits)
  then show ?thesis unfolding m_def n_def by (metis char_of_char)
qed

lemma lower_letter_index:
  "lower_letter c \<longleftrightarrow> 0 \<le> char_code c - 97 \<and> char_code c - 97 < 26"
proof -
  define m :: nat where "m = of_char c"
  have "m < 256" by (simp add: m_def of_char_less_256)
  then have "(97 \<le> m \<and> m \<le> 122) \<longleftrightarrow>
    0 \<le> (if m < 128 then int m else int m - 256) - 97 \<and>
    (if m < 128 then int m else int m - 256) - 97 < 26"
    by auto
  then show ?thesis unfolding char_code_alt lower_letter_def Let_def m_def .
qed

lemma isalpha_tolower: "isalpha c \<Longrightarrow> lower_letter (tolower c)"
  by (auto simp: isalpha_def lower_letter_def tolower_def Let_def of_char_of)



section \<open>The trie\<close>

lemma trie_walk_Cons:
  "trie_walk t v (c # w) =
     (if lower_letter c \<and> in_range t v \<and> next' (t ! nat v) (nat (char_code c - 97)) \<noteq> - 1
      then trie_walk t (next' (t ! nat v) (nat (char_code c - 97))) w
      else None)"
  by (auto simp: lower_letter_index Let_def)

declare trie_walk.simps(2) [simp del]

lemma trie_inv_child:
  assumes "trie_inv t" "in_range t v" "next' (t ! nat v) k \<noteq> - 1"
  shows "in_range t (next' (t ! nat v) k)"
  using assms unfolding trie_inv_def in_range_def by blast

lemma trie_walk_in_range:
  assumes "trie_inv t"
  shows "in_range t v \<Longrightarrow> trie_walk t v w = Some u \<Longrightarrow> in_range t u"
proof (induction w arbitrary: v)
  case Nil
  then show ?case by simp
next
  case (Cons c w)
  from Cons.prems(2) have ne: "next' (t ! nat v) (nat (char_code c - 97)) \<noteq> - 1"
    and step: "trie_walk t (next' (t ! nat v) (nat (char_code c - 97))) w = Some u"
    by (auto simp: trie_walk_Cons split: if_splits)
  from trie_inv_child [OF assms Cons.prems(1) ne] step show ?case
    by (rule Cons.IH)
qed

lemma trie_walk_append:
  "trie_walk t v (p @ q) = (case trie_walk t v p of None \<Rightarrow> None | Some x \<Rightarrow> trie_walk t x q)"
  by (induction p arbitrary: v) (simp_all add: trie_walk_Cons)

lemma trie_walk_cong_next:
  assumes "length t' = length t" "\<And>x. next' (t' ! x) = next' (t ! x)"
  shows "trie_walk t' v w = trie_walk t v w"
  using assms
  by (induction w arbitrary: v) (simp_all add: trie_walk_Cons in_range_def)

lemma nat_index_eq:
  assumes "lower_letter c" "lower_letter d"
  shows "nat (char_code c - 97) = nat (char_code d - 97) \<longleftrightarrow> c = d"
  using assms char_code_inj [of c d] by (auto simp: lower_letter_index)

lemma length_add_edge: "length (add_edge t v c) = Suc (length t)"
  by (simp add: add_edge_def)

lemma in_range_add_edge: "in_range (add_edge t v c) x \<longleftrightarrow> in_range t x \<or> x = int (length t)"
  by (auto simp: in_range_def length_add_edge)

lemma next_add_edge_old:
  assumes "in_range t x" "in_range t v"
  shows "next' (add_edge t v c ! nat x) j =
     (if x = v \<and> j = nat (char_code c - 97) then int (length t) else next' (t ! nat x) j)"
  using assms by (auto simp: add_edge_def in_range_def nth_append nth_list_update)

lemma terminal_add_edge_old:
  assumes "in_range t x"
  shows "terminal (add_edge t v c ! nat x) = terminal (t ! nat x)"
  using assms
  by (cases "nat x = nat v") (simp_all add: add_edge_def in_range_def nth_append)

lemma node_add_edge_new: "add_edge t v c ! length t = Node"
  by (simp add: add_edge_def nth_append)

lemma trie_walk_from_new:
  "trie_walk (add_edge t v c) (int (length t)) w = (if w = [] then Some (int (length t)) else None)"
  by (cases w) (simp_all add: trie_walk_Cons node_add_edge_new Node_def)

lemma trie_walk_add_edge:
  assumes inv: "trie_inv t" and v: "in_range t v" and c: "lower_letter c"
    and absent: "next' (t ! nat v) (nat (char_code c - 97)) = - 1"
  shows "in_range t u \<Longrightarrow> trie_walk (add_edge t v c) u w =
     (case trie_walk t u w of
        Some x \<Rightarrow> Some x
      | None \<Rightarrow>
          if w \<noteq> [] \<and> last w = c \<and> trie_walk t u (butlast w) = Some v
          then Some (int (length t)) else None)"
proof (induction w arbitrary: u)
  case Nil
  then show ?case by simp
next
  case (Cons d w)
  show ?case
  proof (cases "lower_letter d \<and> next' (t ! nat u) (nat (char_code d - 97)) \<noteq> - 1")
    case True
    then have d: "lower_letter d" and ne: "next' (t ! nat u) (nat (char_code d - 97)) \<noteq> - 1"
      by simp_all
    let ?n = "next' (t ! nat u) (nat (char_code d - 97))"
    have n: "in_range t ?n" using trie_inv_child [OF inv Cons.prems ne] .
    have not_edge: "\<not> (u = v \<and> nat (char_code d - 97) = nat (char_code c - 97))"
      using ne absent by auto
    have step1: "trie_walk (add_edge t v c) u (d # w) = trie_walk (add_edge t v c) ?n w"
      using d ne not_edge Cons.prems v
      by (auto simp: trie_walk_Cons next_add_edge_old in_range_add_edge)
    have step0: "trie_walk t u (d # w) = trie_walk t ?n w"
      using d ne Cons.prems by (simp add: trie_walk_Cons)
    have bl: "w \<noteq> [] \<Longrightarrow> trie_walk t u (butlast (d # w)) = trie_walk t ?n (butlast w)"
      using d ne Cons.prems by (simp add: trie_walk_Cons)
    have single: "w = [] \<Longrightarrow> trie_walk t u (d # w) \<noteq> None"
      using step0 by simp
    show ?thesis
      unfolding step1 step0 Cons.IH [OF n]
      using bl single step0 by (cases "w = []") (auto split: option.splits)
  next
    case False
    have none0: "trie_walk t u (d # w) = None"
      using False by (auto simp: trie_walk_Cons)
    have bl: "w \<noteq> [] \<Longrightarrow> trie_walk t u (butlast (d # w)) = None"
      using False by (auto simp: trie_walk_Cons)
    show ?thesis
    proof (cases "u = v \<and> d = c")
      case True
      then have "trie_walk (add_edge t v c) u (d # w) = trie_walk (add_edge t v c) (int (length t)) w"
        using v c by (simp add: trie_walk_Cons next_add_edge_old in_range_add_edge)
      then show ?thesis
        using True none0 bl by (cases "w = []") (simp_all add: trie_walk_from_new)
    next
      case ne: False
      have "lower_letter d \<Longrightarrow> \<not> (u = v \<and> nat (char_code d - 97) = nat (char_code c - 97))"
        using ne c by (auto simp: nat_index_eq)
      then have "trie_walk (add_edge t v c) u (d # w) = None"
        using False Cons.prems v
        by (auto simp: trie_walk_Cons next_add_edge_old in_range_add_edge)
      then show ?thesis
        using ne none0 bl by (cases "w = []") auto
    qed
  qed
qed

lemma in_range_root: "trie_inv t \<Longrightarrow> in_range t 0"
  by (simp add: trie_inv_def in_range_def)

lemma trie_walk_inj:
  "trie_inv t \<Longrightarrow> trie_walk t 0 w1 = Some u \<Longrightarrow> trie_walk t 0 w2 = Some u \<Longrightarrow> w1 = w2"
  unfolding trie_inv_def by blast

lemma trie_walk_root_add_edge:
  assumes inv: "trie_inv t" and p: "trie_walk t 0 p = Some v" and c: "lower_letter c"
    and absent: "next' (t ! nat v) (nat (char_code c - 97)) = - 1"
  shows "trie_walk (add_edge t v c) 0 w =
     (if w = p @ [c] then Some (int (length t)) else trie_walk t 0 w)"
proof -
  have v: "in_range t v"
    using trie_walk_in_range [OF inv in_range_root [OF inv] p] .
  have none: "trie_walk t 0 (p @ [c]) = None"
    using p absent by (simp add: trie_walk_append trie_walk_Cons)
  have eq: "trie_walk (add_edge t v c) 0 w =
     (case trie_walk t 0 w of
        Some x \<Rightarrow> Some x
      | None \<Rightarrow>
          if w \<noteq> [] \<and> last w = c \<and> trie_walk t 0 (butlast w) = Some v
          then Some (int (length t)) else None)"
    using trie_walk_add_edge [OF inv v c absent in_range_root [OF inv]] .
  show ?thesis
  proof (cases "trie_walk t 0 w")
    case (Some x)
    with none have "w \<noteq> p @ [c]" by auto
    with Some eq show ?thesis by simp
  next
    case None
    have "(w \<noteq> [] \<and> last w = c \<and> trie_walk t 0 (butlast w) = Some v) \<longleftrightarrow> w = p @ [c]"
    proof
      assume h: "w \<noteq> [] \<and> last w = c \<and> trie_walk t 0 (butlast w) = Some v"
      then have "butlast w = p" using trie_walk_inj [OF inv _ p] by blast
      with h show "w = p @ [c]" by (metis append_butlast_last_id)
    next
      assume "w = p @ [c]"
      then show "w \<noteq> [] \<and> last w = c \<and> trie_walk t 0 (butlast w) = Some v"
        using p by simp
    qed
    with None eq show ?thesis by simp
  qed
qed

lemma trie_inv_add_edge:
  assumes inv: "trie_inv t" and p: "trie_walk t 0 p = Some v" and c: "lower_letter c"
    and absent: "next' (t ! nat v) (nat (char_code c - 97)) = - 1"
  shows "trie_inv (add_edge t v c)"
proof -
  have v: "in_range t v"
    using trie_walk_in_range [OF inv in_range_root [OF inv] p] .
  note walk = trie_walk_root_add_edge [OF inv p c absent]
  have bounds: "next' (add_edge t v c ! x) k = - 1 \<or> in_range (add_edge t v c) (next' (add_edge t v c ! x) k)"
    if "x < length (add_edge t v c)" for x k
  proof (cases "x < length t")
    case True
    then have x: "in_range t (int x)" by (simp add: in_range_def)
    have "next' (t ! x) k = - 1 \<or> in_range t (next' (t ! x) k)"
      using inv True unfolding trie_inv_def by blast
    then show ?thesis
      using next_add_edge_old [OF x v, of c k] by (auto simp: in_range_add_edge)
  next
    case False
    with that have "x = length t" by (simp add: length_add_edge)
    then show ?thesis by (simp add: node_add_edge_new Node_def)
  qed
  have inj: "w1 = w2"
    if "trie_walk (add_edge t v c) 0 w1 = Some u" "trie_walk (add_edge t v c) 0 w2 = Some u"
    for w1 w2 u
  proof -
    have old: "trie_walk t 0 w \<noteq> Some (int (length t))" for w
      using trie_walk_in_range [OF inv in_range_root [OF inv], of w "int (length t)"]
      by (auto simp: in_range_def)
    show ?thesis
      using that old trie_walk_inj [OF inv, of w1 u w2]
      unfolding walk by (auto split: if_splits)
  qed
  show ?thesis
    unfolding trie_inv_def using bounds inj by (auto simp: add_edge_def)
qed

lemma trie_contains_add_edge:
  assumes inv: "trie_inv t" and p: "trie_walk t 0 p = Some v" and c: "lower_letter c"
    and absent: "next' (t ! nat v) (nat (char_code c - 97)) = - 1"
  shows "trie_contains (add_edge t v c) w \<longleftrightarrow> trie_contains t w"
proof -
  note walk = trie_walk_root_add_edge [OF inv p c absent]
  have none: "trie_walk t 0 (p @ [c]) = None"
    using p absent by (simp add: trie_walk_append trie_walk_Cons)
  show ?thesis
  proof (cases "w = p @ [c]")
    case True
    then show ?thesis
      using none by (simp add: trie_contains_def walk node_add_edge_new Node_def)
  next
    case False
    show ?thesis
    proof (cases "trie_walk t 0 w")
      case None
      with False show ?thesis by (simp add: trie_contains_def walk)
    next
      case (Some x)
      then have "in_range t x"
        using trie_walk_in_range [OF inv in_range_root [OF inv]] by blast
      with False Some show ?thesis
        by (simp add: trie_contains_def walk terminal_add_edge_old in_range_add_edge)
    qed
  qed
qed

lemma int_cast_exact: "n < 2 ^ 31 \<Longrightarrow> int_cast n = int n"
proof -
  assume "n < 2 ^ 31"
  then have "int n < 2 ^ 31" by (metis of_nat_less_iff of_nat_numeral of_nat_power)
  then show ?thesis
    unfolding int_cast_def by (simp add: signed_of_nat signed_take_bit_int_eq_self)
qed

lemma int_cast_ge_3: "3 \<le> int_cast n \<Longrightarrow> 3 \<le> n"
proof (rule ccontr)
  assume h: "3 \<le> int_cast n" and "\<not> 3 \<le> n"
  then have "n < 2 ^ 31" by simp
  from int_cast_exact [OF this] h \<open>\<not> 3 \<le> n\<close> show False by simp
qed

lemma int_cast_2_31: "int_cast 2147483648 = - 2147483648"
  by (simp add: int_cast_def)

lemma Trie_insert_from_out_of_range:
  "\<not> in_range t v \<Longrightarrow> Trie_insert_from t v w = Inl OutOfBounds"
  by (cases w) (simp_all add: Let_def)

lemma Trie_insert_from_Cons:
  "Trie_insert_from t v (c # w) =
     (if \<not> in_range t v \<or> \<not> lower_letter c then Inl OutOfBounds
      else if next' (t ! nat v) (nat (char_code c - 97)) = - 1
        then Trie_insert_from
               (t[nat v := (t ! nat v)
                   \<lparr>next' := (next' (t ! nat v))
                      (nat (char_code c - 97) := int_cast (length t))\<rparr>] @ [Node])
               (int_cast (length t)) w
        else Trie_insert_from t (next' (t ! nat v) (nat (char_code c - 97))) w)"
  by (auto simp: Let_def lower_letter_index in_range_def nth_append)

declare Trie_insert_from.simps(2) [simp del]

lemma Trie_insert_from_add:
  assumes "in_range t v" "lower_letter c" "next' (t ! nat v) (nat (char_code c - 97)) = - 1"
    and "length t < 2 ^ 31"
  shows "Trie_insert_from t v (c # w) = Trie_insert_from (add_edge t v c) (int (length t)) w"
  using assms by (simp add: Trie_insert_from_Cons add_edge_def int_cast_exact)

lemma Trie_insert_from_full:
  assumes "in_range t v" "lower_letter c" "next' (t ! nat v) (nat (char_code c - 97)) = - 1"
    and "length t = 2 ^ 31"
  shows "Trie_insert_from t v (c # w) = Inl OutOfBounds"
proof -
  have "int_cast (length t) = - 2147483648" using assms(4) by (simp add: int_cast_2_31)
  then have "\<not> in_range t' (int_cast (length t))" for t' :: trie
    by (simp add: in_range_def)
  then show ?thesis
    using assms(1-3) by (simp add: Trie_insert_from_Cons Trie_insert_from_out_of_range)
qed

lemma trie_mark_terminal:
  assumes inv: "trie_inv t" and p: "trie_walk t 0 p = Some v"
  defines "t' \<equiv> t[nat v := (t ! nat v)\<lparr>terminal := True\<rparr>]"
  shows "trie_inv t' \<and> (\<forall>x. trie_contains t' x \<longleftrightarrow> trie_contains t x \<or> x = p)"
proof -
  have v: "in_range t v"
    using trie_walk_in_range [OF inv in_range_root [OF inv] p] .
  have nx: "next' (t' ! x) = next' (t ! x)" for x
    using v by (cases "x = nat v") (simp_all add: t'_def in_range_def)
  have len: "length t' = length t" by (simp add: t'_def)
  have walk: "trie_walk t' u w = trie_walk t u w" for u w
    using trie_walk_cong_next [OF len nx] .
  have rng: "in_range t' x = in_range t x" for x by (simp add: in_range_def len)
  have "trie_inv t'"
    using inv unfolding trie_inv_def walk rng nx len by (auto simp: t'_def)
  moreover have "trie_contains t' x \<longleftrightarrow> trie_contains t x \<or> x = p" for x
  proof (cases "trie_walk t 0 x")
    case None
    with p show ?thesis by (auto simp: trie_contains_def walk)
  next
    case (Some u)
    then have u: "in_range t u"
      using trie_walk_in_range [OF inv in_range_root [OF inv]] by blast
    have "x = p \<longleftrightarrow> u = v"
      using Some p trie_walk_inj [OF inv, of x u p] by auto
    moreover have "terminal (t' ! nat u) \<longleftrightarrow> terminal (t ! nat u) \<or> u = v"
      using u v by (cases "nat u = nat v") (auto simp: t'_def in_range_def)
    ultimately show ?thesis
      using Some u by (auto simp: trie_contains_def walk rng)
  qed
  ultimately show ?thesis by blast
qed

text \<open>
  An insertion into a trie of at most \<open>2^31\<close> nodes returns if the trie has room for the
  word, and whenever it returns the trie has the word added and still at most \<open>2^31\<close>
  nodes. Beyond that size the index of a new node is negative and the next access fails.
\<close>

lemma Trie_insert_from_correct:
  assumes "list_all lower_letter w" "trie_inv t" "trie_walk t 0 p = Some v"
    and "length t \<le> 2 ^ 31"
  shows "(length t + length w \<le> 2 ^ 31 \<longrightarrow> (\<exists>t'. Trie_insert_from t v w = Inr t')) \<and>
         (\<forall>t'. Trie_insert_from t v w = Inr t' \<longrightarrow>
            trie_inv t' \<and> length t' \<le> 2 ^ 31 \<and> length t' \<le> length t + length w \<and>
            (\<forall>x. trie_contains t' x \<longleftrightarrow> trie_contains t x \<or> x = p @ w))"
  using assms
proof (induction w arbitrary: t v p)
  case Nil
  have v: "in_range t v"
    using trie_walk_in_range [OF Nil.prems(2) in_range_root [OF Nil.prems(2)] Nil.prems(3)] .
  with trie_mark_terminal [OF Nil.prems(2,3)] Nil.prems(4) show ?case by simp
next
  case (Cons c w)
  from Cons.prems have c: "lower_letter c" and w: "list_all lower_letter w" by simp_all
  note inv = Cons.prems(2) and p = Cons.prems(3) and len = Cons.prems(4)
  have v: "in_range t v"
    using trie_walk_in_range [OF inv in_range_root [OF inv] p] .
  let ?n = "next' (t ! nat v) (nat (char_code c - 97))"
  show ?case
  proof (cases "?n = - 1")
    case True
    show ?thesis
    proof (cases "length t < 2 ^ 31")
      case small: True
      have step: "Trie_insert_from t v (c # w) =
          Trie_insert_from (add_edge t v c) (int (length t)) w"
        using v c True small by (rule Trie_insert_from_add)
      have p': "trie_walk (add_edge t v c) 0 (p @ [c]) = Some (int (length t))"
        by (simp add: trie_walk_root_add_edge [OF inv p c True])
      have len': "length (add_edge t v c) \<le> 2 ^ 31"
        using small by (simp add: length_add_edge)
      from Cons.IH [OF w trie_inv_add_edge [OF inv p c True] p' len']
      show ?thesis
        unfolding step
        by (simp add: length_add_edge trie_contains_add_edge [OF inv p c True])
    next
      case False
      with len have "length t = 2 ^ 31" by simp
      with Trie_insert_from_full [OF v c True] show ?thesis by simp
    qed
  next
    case False
    have step: "Trie_insert_from t v (c # w) = Trie_insert_from t ?n w"
      using v c False by (simp add: Trie_insert_from_Cons)
    have p': "trie_walk t 0 (p @ [c]) = Some ?n"
      using p v c False by (simp add: trie_walk_append trie_walk_Cons)
    from Cons.IH [OF w inv p' len] show ?thesis
      unfolding step by auto
  qed
qed

lemma trie_inv_Trie: "trie_inv Trie"
proof -
  have "trie_walk Trie 0 w = Some u \<Longrightarrow> w = []" for w u
    by (cases w) (simp_all add: trie_walk_Cons Trie_def Node_def)
  then show ?thesis
    by (auto simp: trie_inv_def Trie_def Node_def)
qed

lemma trie_contains_Trie: "\<not> trie_contains Trie w"
  by (cases w) (simp_all add: trie_contains_def trie_walk_Cons Trie_def Node_def)

lemma Trie_insert_correct:
  assumes "list_all lower_letter w" "trie_inv t" "length t \<le> 2 ^ 31"
  shows "(length t + length w \<le> 2 ^ 31 \<longrightarrow> (\<exists>t'. Trie_insert t w = Inr t')) \<and>
         (\<forall>t'. Trie_insert t w = Inr t' \<longrightarrow>
            trie_inv t' \<and> length t' \<le> 2 ^ 31 \<and> length t' \<le> length t + length w \<and>
            (\<forall>x. trie_contains t' x \<longleftrightarrow> trie_contains t x \<or> x = w))"
  using Trie_insert_from_correct [OF assms(1,2) _ assms(3), of "[]" 0]
  by (simp add: Trie_insert_def)

lemma scan_token_eq:
  "scan_token w s = (list_all isalpha w, s @ map tolower (takeWhile isalpha w))"
  by (induction w arbitrary: s) simp_all

lemma scan_token_accepted:
  "(fst (scan_token w []) \<and> 3 \<le> int_cast (length (snd (scan_token w [])))) = code_accepted w"
  by (auto simp: scan_token_eq code_accepted_def list_all_iff
      takeWhile_eq_all_conv [THEN iffD2])

lemma scan_token_lowercased:
  "fst (scan_token w []) \<Longrightarrow> snd (scan_token w []) = map tolower w"
  by (simp add: scan_token_eq list_all_iff takeWhile_eq_all_conv [THEN iffD2])

lemma code_accepted_spec: "code_accepted w \<Longrightarrow> spec_accepted w"
  using int_cast_ge_3 [of "length w"] by (simp add: code_accepted_def spec_accepted_def)

lemma code_accepted_eq: "length w < 2 ^ 31 \<Longrightarrow> code_accepted w = spec_accepted w"
  by (simp add: code_accepted_def spec_accepted_def int_cast_exact)

lemma code_dictionary_words_eq:
  assumes "\<forall>w \<in> set toks. length w < 2 ^ 31"
  shows "code_dictionary_words toks = spec_dictionary_words toks"
  using assms code_accepted_eq
  unfolding code_dictionary_words_def spec_dictionary_words_def by blast

lemma accepted_lower: "spec_accepted w \<Longrightarrow> list_all lower_letter (map tolower w)"
  by (simp add: spec_accepted_def list_all_iff isalpha_tolower)


lemma load_tokens_correct:
  assumes "trie_inv t" "length t \<le> 2 ^ 31"
  shows "(length t + sum_list (map length toks) \<le> 2 ^ 31 \<longrightarrow>
            (\<exists>t'. load_tokens toks t = Inr t')) \<and>
         (\<forall>t'. load_tokens toks t = Inr t' \<longrightarrow>
            trie_inv t' \<and> length t' \<le> 2 ^ 31 \<and>
            (\<forall>x. trie_contains t' x \<longleftrightarrow> trie_contains t x \<or> x \<in> code_dictionary_words toks))"
  using assms
proof (induction toks arbitrary: t)
  case Nil
  then show ?case by (simp add: code_dictionary_words_def)
next
  case (Cons w toks)
  obtain ok s where sc: "scan_token w [] = (ok, s)" by (cases "scan_token w []")
  have acc: "(ok \<and> 3 \<le> int_cast (length s)) = code_accepted w"
    using scan_token_accepted [of w] sc by simp
  have words: "code_dictionary_words (w # toks) =
      (if code_accepted w then {map tolower w} else {}) \<union> code_dictionary_words toks"
    by (auto simp: code_dictionary_words_def)
  show ?case
  proof (cases "code_accepted w")
    case False
    then have step: "load_tokens (w # toks) t = load_tokens toks t"
      using acc sc by auto
    from Cons.IH [OF Cons.prems] show ?thesis
      unfolding step using False by (auto simp: words)
  next
    case True
    then have s: "s = map tolower w" using scan_token_lowercased [of w] sc acc by simp
    have step: "load_tokens (w # toks) t =
        (case Trie_insert t (map tolower w) of Inl e \<Rightarrow> Inl e | Inr t1 \<Rightarrow> load_tokens toks t1)"
      using True acc sc s by auto
    note ins = Trie_insert_correct
      [OF accepted_lower [OF code_accepted_spec [OF True]] Cons.prems]
    have total: "\<exists>t'. load_tokens (w # toks) t = Inr t'"
      if room: "length t + sum_list (map length (w # toks)) \<le> 2 ^ 31"
    proof -
      from room have "length t + length (map tolower w) \<le> 2 ^ 31" by simp
      with ins obtain t1 where t1: "Trie_insert t (map tolower w) = Inr t1" by blast
      with ins have i1: "trie_inv t1" "length t1 \<le> 2 ^ 31"
          "length t1 \<le> length t + length (map tolower w)"
        by blast+
      then have "length t1 + sum_list (map length toks) \<le> 2 ^ 31" using room by simp
      with Cons.IH [OF i1(1,2)] obtain t' where "load_tokens toks t1 = Inr t'" by blast
      then show ?thesis
        unfolding step using t1 by simp
    qed
    have sound: "trie_inv t' \<and> length t' \<le> 2 ^ 31 \<and>
          (\<forall>x. trie_contains t' x \<longleftrightarrow>
             trie_contains t x \<or> x \<in> code_dictionary_words (w # toks))"
      if r: "load_tokens (w # toks) t = Inr t'" for t'
    proof -
      from r obtain t1 where t1: "Trie_insert t (map tolower w) = Inr t1"
          and rest: "load_tokens toks t1 = Inr t'"
        unfolding step by (auto split: sum.splits)
      with ins have i1: "trie_inv t1" "length t1 \<le> 2 ^ 31"
          "\<forall>x. trie_contains t1 x \<longleftrightarrow> trie_contains t x \<or> x = map tolower w"
        by blast+
      from Cons.IH [OF i1(1,2)] rest
      have r': "trie_inv t'" "length t' \<le> 2 ^ 31"
          "\<forall>x. trie_contains t' x \<longleftrightarrow> trie_contains t1 x \<or> x \<in> code_dictionary_words toks"
        by blast+
      show ?thesis
        using r' i1(3) True by (auto simp: words)
    qed
    from total sound show ?thesis by blast
  qed
qed

lemma Dictionary_Inr:
  assumes "Dictionary fs dict_path = Inr d"
  shows "\<exists>content. fs dict_path = Some content"
  using assms by (cases "fs dict_path") (simp_all add: Dictionary_def)

lemma length_Trie: "length Trie = 1"
  by (simp add: Trie_def)

lemma Dictionary_sound:
  assumes "Dictionary fs dict_path = Inr d" "fs dict_path = Some content"
  shows "nbr d = build_neighbors_4x4 \<and> trie_inv (trie d) \<and>
         (\<forall>x. trie_contains (trie d) x \<longleftrightarrow> x \<in> code_dictionary_words (tokens_from content []))"
proof -
  from assms obtain t where t: "load_tokens (tokens_from content []) Trie = Inr t"
      and d: "d = \<lparr>trie = t, nbr = build_neighbors_4x4\<rparr>"
    by (auto simp: Dictionary_def split: sum.splits)
  have "length Trie \<le> 2 ^ 31" by (simp add: length_Trie)
  from load_tokens_correct [OF trie_inv_Trie this, of "tokens_from content []"] t
  show ?thesis unfolding d by (simp add: trie_contains_Trie)
qed


lemma Dictionary_inv:
  assumes "Dictionary fs dict_path = Inr d"
  shows "nbr d = build_neighbors_4x4 \<and> trie_inv (trie d)"
  using Dictionary_Inr [OF assms] Dictionary_sound [OF assms] by blast

lemma dictionary_words_shape:
  "w \<in> spec_dictionary_words toks \<Longrightarrow> 3 \<le> length w \<and> list_all lower_letter w"
  using accepted_lower by (auto simp: spec_dictionary_words_def spec_accepted_def)

section \<open>Scoring\<close>

lemma sint_add_exact:
  fixes a b :: cint
  assumes "- (2 ^ 31) \<le> sint a + sint b" "sint a + sint b < 2 ^ 31"
  shows "sint (a + b) = sint a + sint b"
  using assms by (simp only: sint_word_add) (simp add: signed_take_bit_int_eq_self)

lemma sint_diff_exact:
  fixes a b :: cint
  assumes "- (2 ^ 31) \<le> sint a - sint b" "sint a - sint b < 2 ^ 31"
  shows "sint (a - b) = sint a - sint b"
  using assms by (simp only: sint_word_diff) (simp add: signed_take_bit_int_eq_self)

lemma sint_mult_exact:
  fixes a b :: cint
  assumes "- (2 ^ 31) \<le> sint a * sint b" "sint a * sint b < 2 ^ 31"
  shows "sint (a * b) = sint a * sint b"
  using assms by (simp only: sint_word_mult) (simp add: signed_take_bit_int_eq_self)

lemma word_score_small: "sint len < 3 \<Longrightarrow> word_score len = 0"
  by (simp add: word_score_def word_sless_alt)

lemma word_score_table:
  "word_score 3 = 100" "word_score 4 = 400" "word_score 5 = 800"
  "word_score 6 = 1400" "word_score 7 = 1800"
  by (simp_all add: word_score_def word_sless_alt)

lemma word_score_large:
  assumes "8 \<le> sint len" "sint len \<le> 5368711"
  shows "sint (word_score len) = 2200 + 400 * (sint len - 8)"
proof -
  have ne: "\<not> len <s 3" "len \<noteq> 3" "len \<noteq> 4" "len \<noteq> 5" "len \<noteq> 6" "len \<noteq> 7"
    using assms by (auto simp: word_sless_alt)
  have s8: "sint (len - 8) = sint len - 8"
    using assms sint_diff_exact [of len 8] by simp
  have m: "sint (400 * (len - 8)) = 400 * (sint len - 8)"
    using assms s8 sint_mult_exact [of 400 "len - 8"] by simp
  have "sint (2200 + 400 * (len - 8)) = 2200 + 400 * (sint len - 8)"
    using assms m sint_add_exact [of 2200 "400 * (len - 8)"] by simp
  then show ?thesis using ne by (simp add: word_score_def)
qed

lemma between_3_and_7:
  fixes len :: cint
  assumes "3 \<le> sint len" "sint len < 8"
  shows "len = 3 \<or> len = 4 \<or> len = 5 \<or> len = 6 \<or> len = 7"
proof -
  have "sint len = 3 \<or> sint len = 4 \<or> sint len = 5 \<or> sint len = 6 \<or> sint len = 7"
    using assms by arith
  moreover have "\<And>k. sint len = k \<Longrightarrow> len = word_of_int k" by auto
  ultimately show ?thesis by fastforce
qed

lemma word_score_nonneg:
  assumes "sint len \<le> 5368711"
  shows "0 \<le> sint (word_score len)"
proof -
  consider "sint len < 3" | "3 \<le> sint len" "sint len < 8" | "8 \<le> sint len" by linarith
  then show ?thesis
  proof cases
    case 1
    then show ?thesis by (simp add: word_score_small)
  next
    case 2
    then have "len = 3 \<or> len = 4 \<or> len = 5 \<or> len = 6 \<or> len = 7" by (rule between_3_and_7)
    then show ?thesis by (auto simp: word_score_table)
  next
    case 3
    with assms show ?thesis by (simp add: word_score_large)
  qed
qed

lemma word_score_mono:
  assumes "sint a \<le> sint b" "sint b \<le> 5368711"
  shows "sint (word_score a) \<le> sint (word_score b)"
proof -
  consider "sint a < 3" | "3 \<le> sint a" "sint a < 8" | "8 \<le> sint a" by linarith
  then show ?thesis
  proof cases
    case 1
    with assms(2) word_score_nonneg [of b] show ?thesis by (simp add: word_score_small)
  next
    case 2
    then have a: "a = 3 \<or> a = 4 \<or> a = 5 \<or> a = 6 \<or> a = 7" by (rule between_3_and_7)
    show ?thesis
    proof (cases "sint b < 8")
      case True
      with 2 assms have "b = 3 \<or> b = 4 \<or> b = 5 \<or> b = 6 \<or> b = 7"
        by (intro between_3_and_7) auto
      with a assms(1) show ?thesis by (auto simp: word_score_table)
    next
      case False
      then have "2200 \<le> sint (word_score b)" using assms word_score_large [of b] by simp
      with a show ?thesis by (auto simp: word_score_table)
    qed
  next
    case 3
    with assms show ?thesis by (simp add: word_score_large)
  qed
qed

section \<open>The search\<close>

lemma dfs_all_words_unfold:
  "dfs_all_words cell usedMask trieNode b nb t cur outWords =
     (if 16 \<le> cell then Inl OutOfBounds
      else if \<not> lower_letter (b cell) then Inr (cur, outWords)
      else if \<not> in_range t trieNode then Inl OutOfBounds
      else if child t trieNode (b cell) = - 1 then Inr (cur, outWords)
      else if \<not> in_range t (child t trieNode (b cell)) then Inl OutOfBounds
      else if length nb \<le> cell then Inl OutOfBounds
      else
        (case dfs_loop (nb ! cell) (usedMask OR push_bit cell 1) (child t trieNode (b cell))
                b nb t (cur @ [b cell])
                (record_word t (child t trieNode (b cell)) (cur @ [b cell]) outWords) of
           Inl e \<Rightarrow> Inl e
         | Inr (cur'', outWords'') \<Rightarrow> Inr (butlast cur'', outWords'')))"
  by (subst dfs_all_words.simps)
     (simp add: Let_def lower_letter_index child_def record_word_def not_less not_le
           del: push_bit_of_1)

declare dfs_all_words.simps [simp del]

lemma dfs_induct [case_names dfs nil cons]:
  assumes dfs: "\<And>cell usedMask trieNode b nb t cur outWords.
      (\<lbrakk>cell < 16; lower_letter (b cell); in_range t trieNode;
        child t trieNode (b cell) \<noteq> - 1; in_range t (child t trieNode (b cell));
        cell < length nb\<rbrakk>
       \<Longrightarrow> Q (nb ! cell) (usedMask OR push_bit cell 1) (child t trieNode (b cell)) b nb t
             (cur @ [b cell])
             (record_word t (child t trieNode (b cell)) (cur @ [b cell]) outWords))
      \<Longrightarrow> P cell usedMask trieNode b nb t cur outWords"
    and nil: "\<And>usedMask nxt b nb t cur outWords. Q [] usedMask nxt b nb t cur outWords"
    and cons: "\<And>to tos usedMask nxt b nb t cur outWords.
      \<lbrakk>bit usedMask to \<Longrightarrow> Q tos usedMask nxt b nb t cur outWords;
       \<not> bit usedMask to \<Longrightarrow> P to usedMask nxt b nb t cur outWords;
       \<And>x y. \<lbrakk>\<not> bit usedMask to;
               dfs_all_words to usedMask nxt b nb t cur outWords = Inr (x, y)\<rbrakk>
              \<Longrightarrow> Q tos usedMask nxt b nb t x y\<rbrakk>
      \<Longrightarrow> Q (to # tos) usedMask nxt b nb t cur outWords"
  shows "P cell usedMask trieNode b nb t cur outWords"
    and "Q tos usedMask nxt b nb t cur outWords"
proof (induction cell usedMask trieNode b nb t cur outWords and tos usedMask nxt b nb t cur outWords
    rule: dfs_all_words_dfs_loop.induct)
  case (1 cell usedMask trieNode b nb t cur outWords)
  show ?case
  proof (rule dfs)
    assume h: "cell < 16" "lower_letter (b cell)" "in_range t trieNode"
      "child t trieNode (b cell) \<noteq> - 1" "in_range t (child t trieNode (b cell))"
      "cell < length nb"
    show "Q (nb ! cell) (usedMask OR push_bit cell 1) (child t trieNode (b cell)) b nb t
             (cur @ [b cell])
             (record_word t (child t trieNode (b cell)) (cur @ [b cell]) outWords)"
      unfolding child_def record_word_def
      apply (rule "1.IH" [OF _ refl refl _ _ refl _ refl refl _ refl _])
      using h by (simp_all add: lower_letter_index child_def)
  qed
next
  case (2 usedMask nxt b nb t cur outWords)
  show ?case by (rule nil)
next
  case (3 to tos usedMask nxt b nb t cur outWords)
  show ?case
    apply (rule cons)
    using 3 by auto
qed

lemma dfs_restores_cur_aux:
  "(case dfs_all_words cell usedMask trieNode b nb t cur outWords of
      Inl e \<Rightarrow> True | Inr s \<Rightarrow> fst s = cur)"
  "(case dfs_loop tos usedMask nxt b nb t cur outWords of
      Inl e \<Rightarrow> True | Inr s \<Rightarrow> fst s = cur)"
proof (induction cell usedMask trieNode b nb t cur outWords and tos usedMask nxt b nb t cur outWords
    rule: dfs_induct)
  case (dfs cell usedMask trieNode b nb t cur outWords)
  show ?case
    using dfs
    by (subst dfs_all_words_unfold) (auto simp del: push_bit_of_1 split: sum.splits)
next
  case (nil usedMask nxt b nb t cur outWords)
  show ?case by simp
next
  case (cons to tos usedMask nxt b nb t cur outWords)
  then show ?case
    by (auto split: sum.splits)
qed

lemma dfs_all_words_cur:
  "dfs_all_words cell usedMask trieNode b nb t cur outWords = Inr (cur', out') \<Longrightarrow> cur' = cur"
  using dfs_restores_cur_aux(1) [where cell = cell and usedMask = usedMask and trieNode = trieNode
      and b = b and nb = nb and t = t and cur = cur and outWords = outWords]
  by simp

lemma dfs_loop_cur:
  "dfs_loop tos usedMask nxt b nb t cur outWords = Inr (cur', out') \<Longrightarrow> cur' = cur"
  using dfs_restores_cur_aux(2) [where tos = tos and usedMask = usedMask and nxt = nxt
      and b = b and nb = nb and t = t and cur = cur and outWords = outWords]
  by simp

lemma marked_mark: "cell < 16 \<Longrightarrow> marked (m OR push_bit cell 1) = insert cell (marked m)"
  unfolding marked_def bit_mark by auto

lemma code_path_hd: "code_path nb used p \<Longrightarrow> hd p \<notin> used \<and> hd p < 16"
  by (cases p) simp_all

lemma accepts_Nil: "accepts t v [] = (in_range t v \<and> terminal (t ! nat v))"
  by (simp add: accepts_def)

lemma accepts_Cons:
  "accepts t v (c # w) =
     (lower_letter c \<and> in_range t v \<and> child t v c \<noteq> - 1 \<and> accepts t (child t v c) w)"
  by (simp add: accepts_def trie_walk_Cons child_def)

lemma found_from_step:
  assumes "cell < 16" "cell \<notin> used"
  shows "found_from b nb t used v cur cell =
     (if lower_letter (b cell) \<and> in_range t v \<and> child t v (b cell) \<noteq> - 1 then
        (if in_range t (child t v (b cell)) \<and> terminal (t ! nat (child t v (b cell))) \<and>
            3 \<le> length (cur @ [b cell])
         then {cur @ [b cell]} else {}) \<union>
        (\<Union>to \<in> {to \<in> set (nb ! cell). to \<notin> insert cell used}.
            found_from b nb t (insert cell used) (child t v (b cell)) (cur @ [b cell]) to)
      else {})"
    (is "?L = ?R")
proof (intro set_eqI iffI)
  fix x assume "x \<in> ?L"
  then obtain p where p: "x = cur @ map b p" "p \<noteq> []" "hd p = cell" "code_path nb used p"
    "accepts t v (map b p)" "3 \<le> length cur + length p"
    unfolding found_from_def by blast
  then obtain q where q: "p = cell # q" by (cases p) auto
  from p(5) q have g: "lower_letter (b cell)" "in_range t v" "child t v (b cell) \<noteq> - 1"
    and acc: "accepts t (child t v (b cell)) (map b q)"
    by (simp_all add: accepts_Cons)
  show "x \<in> ?R"
  proof (cases "q = []")
    case True
    with p q acc g show ?thesis by (simp add: accepts_Nil)
  next
    case False
    with p(4) q have hq: "hd q \<in> set (nb ! cell)" and cp: "code_path nb (insert cell used) q"
      by simp_all
    have "x \<in> found_from b nb t (insert cell used) (child t v (b cell)) (cur @ [b cell]) (hd q)"
      unfolding found_from_def using p(1,6) q False cp acc by auto
    moreover have "hd q \<notin> insert cell used" using code_path_hd [OF cp] by simp
    ultimately show ?thesis using g hq by auto
  qed
next
  fix x assume r: "x \<in> ?R"
  then have g: "lower_letter (b cell)" "in_range t v" "child t v (b cell) \<noteq> - 1"
    by (auto split: if_splits)
  from r g consider
      (single) "in_range t (child t v (b cell))" "terminal (t ! nat (child t v (b cell)))"
        "3 \<le> length (cur @ [b cell])" "x = cur @ [b cell]"
    | (more) to where "to \<in> set (nb ! cell)" "to \<notin> insert cell used"
        "x \<in> found_from b nb t (insert cell used) (child t v (b cell)) (cur @ [b cell]) to"
    by (auto split: if_splits)
  then show "x \<in> ?L"
  proof cases
    case single
    then show ?thesis
      unfolding found_from_def using assms g
      by (intro CollectI exI [of _ "[cell]"]) (simp add: accepts_Cons accepts_Nil)
  next
    case more
    then obtain q where q: "x = (cur @ [b cell]) @ map b q" "q \<noteq> []" "hd q = to"
      "code_path nb (insert cell used) q" "accepts t (child t v (b cell)) (map b q)"
      "3 \<le> length (cur @ [b cell]) + length q"
      unfolding found_from_def by blast
    show ?thesis
      unfolding found_from_def using assms g q more(1)
      by (intro CollectI exI [of _ "cell # q"]) (simp add: accepts_Cons)
  qed
qed

lemma set_record_word:
  "set (record_word t n cur' outWords) =
     set outWords \<union> (if terminal (t ! nat n) \<and> 3 \<le> length cur' then {cur'} else {})"
  by (auto simp: record_word_def)

lemma distinct_record_word: "distinct outWords \<Longrightarrow> distinct (record_word t n cur' outWords)"
  by (simp add: record_word_def)

lemma dfs_correct_aux:
  "\<lbrakk>trie_inv t; nbr_ok nb; in_range t trieNode; cell < 16; \<not> bit usedMask cell\<rbrakk> \<Longrightarrow>
     \<exists>out'. dfs_all_words cell usedMask trieNode b nb t cur outWords = Inr (cur, out') \<and>
       set out' = set outWords \<union> found_from b nb t (marked usedMask) trieNode cur cell \<and>
       (distinct outWords \<longrightarrow> distinct out')"
  "\<lbrakk>trie_inv t; nbr_ok nb; in_range t nxt; \<forall>to \<in> set tos. to < 16\<rbrakk> \<Longrightarrow>
     \<exists>out'. dfs_loop tos usedMask nxt b nb t cur outWords = Inr (cur, out') \<and>
       set out' = set outWords \<union>
         (\<Union>to \<in> {to \<in> set tos. \<not> bit usedMask to}. found_from b nb t (marked usedMask) nxt cur to) \<and>
       (distinct outWords \<longrightarrow> distinct out')"
proof (induction cell usedMask trieNode b nb t cur outWords and tos usedMask nxt b nb t cur outWords
    rule: dfs_induct)
  case (dfs cell usedMask trieNode b nb t cur outWords)
  note inv = dfs.prems(1) and nb = dfs.prems(2) and node = dfs.prems(3)
    and cell = dfs.prems(4) and fresh = dfs.prems(5)
  have len: "cell < length nb" using nb cell by (simp add: nbr_ok_def)
  have tos: "\<forall>to \<in> set (nb ! cell). to < 16"
    using nb len unfolding nbr_ok_def by (metis nth_mem)
  have notin: "cell \<notin> marked usedMask" using fresh by (simp add: marked_def)
  note step = found_from_step [OF cell notin, of b nb t trieNode cur]
  show ?case
  proof (cases "lower_letter (b cell) \<and> child t trieNode (b cell) \<noteq> - 1")
    case False
    then have "dfs_all_words cell usedMask trieNode b nb t cur outWords = Inr (cur, outWords)"
      using cell node by (subst dfs_all_words_unfold) auto
    moreover have "found_from b nb t (marked usedMask) trieNode cur cell = {}"
      using False step by auto
    ultimately show ?thesis by simp
  next
    case True
    then have letter: "lower_letter (b cell)" and ne: "child t trieNode (b cell) \<noteq> - 1"
      by simp_all
    let ?n = "child t trieNode (b cell)"
    have n: "in_range t ?n"
      using trie_inv_child [OF inv node] ne unfolding child_def by blast
    from dfs.IH [OF cell letter node ne n len inv nb n tos]
    obtain out' where loop: "dfs_loop (nb ! cell) (usedMask OR push_bit cell 1) ?n b nb t
          (cur @ [b cell]) (record_word t ?n (cur @ [b cell]) outWords) = Inr (cur @ [b cell], out')"
      and out': "set out' = set (record_word t ?n (cur @ [b cell]) outWords) \<union>
         (\<Union>to \<in> {to \<in> set (nb ! cell). \<not> bit (usedMask OR push_bit cell 1) to}.
            found_from b nb t (marked (usedMask OR push_bit cell 1)) ?n (cur @ [b cell]) to)"
      and dist: "distinct (record_word t ?n (cur @ [b cell]) outWords) \<longrightarrow> distinct out'"
      by blast
    have res: "dfs_all_words cell usedMask trieNode b nb t cur outWords = Inr (cur, out')"
      using cell letter node ne n len loop
      by (subst dfs_all_words_unfold) (simp del: push_bit_of_1)
    have bits: "{to \<in> set (nb ! cell). \<not> bit (usedMask OR push_bit cell 1) to} =
        {to \<in> set (nb ! cell). to \<notin> insert cell (marked usedMask)}"
      using cell unfolding bit_mark marked_def by auto
    have "set out' = set outWords \<union> found_from b nb t (marked usedMask) trieNode cur cell"
      unfolding out' bits marked_mark [OF cell] step set_record_word
      using letter node ne n by auto
    with res dist show ?thesis by (simp add: distinct_record_word)
  qed
next
  case (nil usedMask nxt b nb t cur outWords)
  show ?case by simp
next
  case (cons to tos usedMask nxt b nb t cur outWords)
  note inv = cons.prems(1) and nb = cons.prems(2) and n = cons.prems(3)
  have to: "to < 16" and tos: "\<forall>to \<in> set tos. to < 16" using cons.prems(4) by simp_all
  show ?case
  proof (cases "bit usedMask to")
    case True
    from cons.IH(1) [OF True inv nb n tos] show ?thesis
      using True by auto
  next
    case False
    from cons.IH(2) [OF False inv nb n to False]
    obtain out1 where one: "dfs_all_words to usedMask nxt b nb t cur outWords = Inr (cur, out1)"
      and out1: "set out1 = set outWords \<union> found_from b nb t (marked usedMask) nxt cur to"
      and dist1: "distinct outWords \<longrightarrow> distinct out1"
      by blast
    from cons.IH(3) [OF False one inv nb n tos]
    obtain out' where rest: "dfs_loop tos usedMask nxt b nb t cur out1 = Inr (cur, out')"
      and out': "set out' = set out1 \<union>
         (\<Union>to \<in> {to \<in> set tos. \<not> bit usedMask to}. found_from b nb t (marked usedMask) nxt cur to)"
      and dist': "distinct out1 \<longrightarrow> distinct out'"
      by blast
    have "dfs_loop (to # tos) usedMask nxt b nb t cur outWords = Inr (cur, out')"
      using False one rest by simp
    moreover have "set out' = set outWords \<union>
         (\<Union>j \<in> {j \<in> set (to # tos). \<not> bit usedMask j}.
            found_from b nb t (marked usedMask) nxt cur j)"
      unfolding out' out1 using False by auto
    ultimately show ?thesis using dist1 dist' by blast
  qed
qed

lemma build_neighbors_4x4_eq:
  "build_neighbors_4x4 =
    [[1, 4, 5], [0, 2, 4, 5, 6], [1, 3, 5, 6, 7], [2, 6, 7],
     [0, 1, 5, 8, 9], [0, 1, 2, 4, 6, 8, 9, 10], [1, 2, 3, 5, 7, 9, 10, 11], [2, 3, 6, 10, 11],
     [4, 5, 9, 12, 13], [4, 5, 6, 8, 10, 12, 13, 14], [5, 6, 7, 9, 11, 13, 14, 15],
     [6, 7, 10, 14, 15],
     [8, 9, 13], [8, 9, 10, 12, 14], [9, 10, 11, 13, 15], [10, 11, 14]]"
  by (simp add: build_neighbors_4x4_def neighbors_of_def idx_def)

lemma nbr_ok_build: "nbr_ok build_neighbors_4x4"
  unfolding nbr_ok_def build_neighbors_4x4_eq by simp

lemma adjacency_table:
  "list_all (\<lambda>i. list_all (\<lambda>j. (j \<in> set (build_neighbors_4x4 ! i)) = spec_adjacent i j) [0..<16])
     [0..<16]"
  unfolding build_neighbors_4x4_eq by code_simp

lemma neighbors_adjacent:
  assumes "i < 16"
  shows "j \<in> set (build_neighbors_4x4 ! i) \<longleftrightarrow> spec_adjacent i j"
proof (cases "j < 16")
  case True
  with assms adjacency_table show ?thesis by (simp add: list_all_iff)
next
  case False
  have "build_neighbors_4x4 ! i \<in> set build_neighbors_4x4"
    using assms nbr_ok_build by (simp add: nbr_ok_def)
  then have "j \<notin> set (build_neighbors_4x4 ! i)"
    using False nbr_ok_build unfolding nbr_ok_def by auto
  with False show ?thesis by (simp add: spec_adjacent_def)
qed

lemma code_path_walk:
  "code_path build_neighbors_4x4 used p \<longleftrightarrow>
     p \<noteq> [] \<and> list_all (\<lambda>i. i < 16) p \<and> distinct p \<and> set p \<inter> used = {} \<and> spec_steps p"
proof (induction p arbitrary: used)
  case Nil
  show ?case by simp
next
  case (Cons c p)
  have "code_path build_neighbors_4x4 used (c # p) \<longleftrightarrow>
      c < 16 \<and> c \<notin> used \<and>
      (p = [] \<or> (hd p \<in> set (build_neighbors_4x4 ! c) \<and>
         code_path build_neighbors_4x4 (insert c used) p))"
    by simp
  also have "\<dots> \<longleftrightarrow>
      c < 16 \<and> c \<notin> used \<and>
      (p = [] \<or> (spec_adjacent c (hd p) \<and> p \<noteq> [] \<and> list_all (\<lambda>i. i < 16) p \<and> distinct p \<and>
         set p \<inter> insert c used = {} \<and> spec_steps p))"
    unfolding Cons.IH using neighbors_adjacent [of c "hd p"] by blast
  also have "\<dots> \<longleftrightarrow>
      c # p \<noteq> [] \<and> list_all (\<lambda>i. i < 16) (c # p) \<and> distinct (c # p) \<and>
      set (c # p) \<inter> used = {} \<and> spec_steps (c # p)"
    by (cases p) auto
  finally show ?case .
qed

lemma code_path_spec_walk: "code_path build_neighbors_4x4 {} p \<longleftrightarrow> spec_walk p"
  by (simp add: code_path_walk spec_walk_def)

lemma marked_0: "marked 0 = {}"
  by (simp add: marked_def)

lemma accepts_root: "accepts t 0 w = trie_contains t w"
  by (simp add: accepts_def trie_contains_def)

lemma solve_loop_correct:
  assumes "trie_inv (trie d)" "nbr_ok (nbr d)" "\<forall>i \<in> set cells. i < 16"
  shows "\<exists>found'. solve_loop cells b d cur found = Inr (cur, found') \<and>
           set found' = set found \<union> (\<Union>i \<in> set cells. found_from b (nbr d) (trie d) {} 0 cur i) \<and>
           (distinct found \<longrightarrow> distinct found')"
  using assms(3)
proof (induction cells arbitrary: found)
  case Nil
  show ?case by simp
next
  case (Cons i cells)
  have root: "in_range (trie d) 0" using assms(1) by (rule in_range_root)
  from Cons.prems have i: "i < 16" and rest: "\<forall>i \<in> set cells. i < 16" by simp_all
  from dfs_correct_aux(1) [OF assms(1,2) root i, of 0 b cur found]
  obtain out1 where one: "dfs_all_words i 0 0 b (nbr d) (trie d) cur found = Inr (cur, out1)"
    and out1: "set out1 = set found \<union> found_from b (nbr d) (trie d) {} 0 cur i"
    and dist1: "distinct found \<longrightarrow> distinct out1"
    by (auto simp: marked_0)
  from Cons.IH [OF rest, of out1]
  obtain found' where loop: "solve_loop cells b d cur out1 = Inr (cur, found')"
    and found': "set found' = set out1 \<union> (\<Union>i \<in> set cells. found_from b (nbr d) (trie d) {} 0 cur i)"
    and dist': "distinct out1 \<longrightarrow> distinct found'"
    by blast
  have "solve_loop (i # cells) b d cur found = Inr (cur, found')"
    using one loop by simp
  moreover have "set found' =
      set found \<union> (\<Union>j \<in> set (i # cells). found_from b (nbr d) (trie d) {} 0 cur j)"
    unfolding found' out1 by auto
  ultimately show ?case using dist1 dist' by blast
qed

lemma found_from_all_cells:
  "(\<Union>i \<in> set [0..<16]. found_from b build_neighbors_4x4 t {} 0 [] i) =
     {w. 3 \<le> length w \<and> trie_contains t w \<and> spec_spellable b w}"
  (is "?L = ?R")
proof (intro set_eqI iffI)
  fix w assume "w \<in> ?L"
  then obtain p where "w = map b p" "spec_walk p" "trie_contains t w" "3 \<le> length p"
    unfolding found_from_def by (auto simp: code_path_spec_walk accepts_root)
  then show "w \<in> ?R" unfolding spec_spellable_def by auto
next
  fix w assume "w \<in> ?R"
  then obtain p where p: "spec_walk p" "map b p = w" "3 \<le> length w" "trie_contains t w"
    unfolding spec_spellable_def by auto
  then have "hd p < 16" "p \<noteq> []"
    unfolding spec_walk_def by (cases p; simp)+
  then show "w \<in> ?L"
    unfolding found_from_def using p
    by (auto simp: code_path_spec_walk accepts_root intro!: exI [of _ p])
qed

section \<open>Sorting\<close>

lemma solve_cmp_irrefl: "\<not> solve_cmp a a"
  by (simp add: solve_cmp_def)

lemma solve_cmp_trans: "solve_cmp a b \<Longrightarrow> solve_cmp b c \<Longrightarrow> solve_cmp a c"
  by (auto simp: solve_cmp_def split: if_splits)

lemma solve_cmp_asym: "solve_cmp a b \<Longrightarrow> \<not> solve_cmp b a"
  by (auto simp: solve_cmp_def split: if_splits)

lemma solve_cmp_total: "a \<noteq> b \<Longrightarrow> solve_cmp a b \<or> solve_cmp b a"
  by (auto simp: solve_cmp_def)

lemma set_insort_cmp: "set (insort_cmp x ys) = insert x (set ys)"
  by (induction ys) auto

lemma distinct_insort_cmp: "distinct (insort_cmp x ys) \<longleftrightarrow> x \<notin> set ys \<and> distinct ys"
  by (induction ys) (auto simp: set_insort_cmp)

lemma sorted_insort_cmp:
  "sorted_wrt solve_cmp ys \<Longrightarrow> x \<notin> set ys \<Longrightarrow> sorted_wrt solve_cmp (insort_cmp x ys)"
proof (induction ys)
  case Nil
  show ?case by simp
next
  case (Cons y ys)
  show ?case
  proof (cases "solve_cmp y x")
    case True
    with Cons show ?thesis by (auto simp: set_insort_cmp)
  next
    case False
    with Cons.prems have xy: "solve_cmp x y" using solve_cmp_total [of x y] by auto
    then have "\<forall>z \<in> set ys. solve_cmp x z"
      using Cons.prems(1) solve_cmp_trans by auto
    with xy False Cons.prems show ?thesis by simp
  qed
qed

lemma set_sort_cmp: "set (sort_cmp xs) = set xs"
  unfolding sort_cmp_def by (induction xs) (simp_all add: set_insort_cmp)

lemma distinct_sort_cmp: "distinct xs \<Longrightarrow> distinct (sort_cmp xs)"
  unfolding sort_cmp_def
  by (induction xs) (simp_all add: distinct_insort_cmp set_sort_cmp [unfolded sort_cmp_def])

lemma sorted_sort_cmp: "distinct xs \<Longrightarrow> sorted_wrt solve_cmp (sort_cmp xs)"
  unfolding sort_cmp_def
  by (induction xs) (simp_all add: sorted_insort_cmp set_sort_cmp [unfolded sort_cmp_def])

lemma sorted_cmp_unique:
  "sorted_wrt solve_cmp xs \<Longrightarrow> sorted_wrt solve_cmp ys \<Longrightarrow> set xs = set ys \<Longrightarrow> xs = ys"
proof (induction xs arbitrary: ys)
  case Nil
  then show ?case by simp
next
  case (Cons x xs)
  then obtain y ys' where ys: "ys = y # ys'" by (cases ys) auto
  have "x = y"
  proof (rule ccontr)
    assume ne: "x \<noteq> y"
    with Cons.prems(3) ys have "x \<in> set ys'" "y \<in> set xs" by auto
    with Cons.prems(1,2) ys have "solve_cmp y x" "solve_cmp x y" by auto
    then show False using solve_cmp_asym by blast
  qed
  moreover have "x \<notin> set xs" "y \<notin> set ys'"
    using Cons.prems(1,2) ys solve_cmp_irrefl by auto
  ultimately have "set xs = set ys'" using Cons.prems(3) ys by auto
  with Cons.IH [of ys'] Cons.prems(1,2) ys \<open>x = y\<close> show ?case by simp
qed

lemma sort_cmp_unique:
  assumes "distinct xs" "sorted_wrt solve_cmp ys" "set ys = set xs"
  shows "ys = sort_cmp xs"
  using sorted_cmp_unique [OF assms(2) sorted_sort_cmp [OF assms(1)]] assms(3)
  by (simp add: set_sort_cmp)

section \<open>The total score\<close>

lemma path_bound_numeral:
  "path_bound (numeral k) = 1 + numeral k * path_bound (pred_numeral k)"
  by (simp add: numeral_eq_Suc)

lemma path_bound_16: "path_bound 16 = 56874039553217"
  by (simp add: path_bound_numeral)

lemma distinct_lists_bound:
  "finite A \<Longrightarrow> card A = n \<Longrightarrow>
     finite {xs. distinct xs \<and> set xs \<subseteq> A} \<and> card {xs. distinct xs \<and> set xs \<subseteq> A} \<le> path_bound n"
proof (induction n arbitrary: A)
  case 0
  then have "A = {}" by simp
  then have "{xs. distinct xs \<and> set xs \<subseteq> A} = {[]}" by auto
  then show ?case by simp
next
  case (Suc n)
  let ?S = "\<lambda>B. {xs. distinct xs \<and> set xs \<subseteq> B}"
  have sub: "?S A \<subseteq> {[]} \<union> (\<Union>x \<in> A. Cons x ` ?S (A - {x}))"
  proof
    fix xs assume "xs \<in> ?S A"
    then show "xs \<in> {[]} \<union> (\<Union>x \<in> A. Cons x ` ?S (A - {x}))"
      by (cases xs) auto
  qed
  have part: "finite (?S (A - {x})) \<and> card (?S (A - {x})) \<le> path_bound n" if "x \<in> A" for x
    using Suc.IH [of "A - {x}"] Suc.prems that by simp
  have fin: "finite ({[]} \<union> (\<Union>x \<in> A. Cons x ` ?S (A - {x})))"
    using Suc.prems(1) part by auto
  have "card (\<Union>x \<in> A. Cons x ` ?S (A - {x})) \<le> (\<Sum>x \<in> A. card (Cons x ` ?S (A - {x})))"
    using Suc.prems(1) by (rule card_UN_le)
  also have "\<dots> \<le> (\<Sum>x \<in> A. path_bound n)"
  proof (rule sum_mono)
    fix x assume "x \<in> A"
    from part [OF this] show "card (Cons x ` ?S (A - {x})) \<le> path_bound n"
      using card_image_le [of "?S (A - {x})" "Cons x"] by simp
  qed
  also have "\<dots> = Suc n * path_bound n" using Suc.prems(2) by simp
  finally have un: "card (\<Union>x \<in> A. Cons x ` ?S (A - {x})) \<le> Suc n * path_bound n" .
  have "card (?S A) \<le> card ({[]} \<union> (\<Union>x \<in> A. Cons x ` ?S (A - {x})))"
    using sub fin by (rule card_mono [rotated])
  also have "\<dots> \<le> card {[] :: 'a list} + card (\<Union>x \<in> A. Cons x ` ?S (A - {x}))"
    by (rule card_Un_le)
  also have "\<dots> \<le> path_bound (Suc n)" using un by simp
  finally show ?case using finite_subset [OF sub fin] by simp
qed

lemma spec_walk_length: "spec_walk p \<Longrightarrow> length p \<le> 16"
proof -
  assume "spec_walk p"
  then have d: "distinct p" and s: "set p \<subseteq> {..<16}"
    by (auto simp: spec_walk_def list_all_iff)
  have "length p = card (set p)" using d by (simp add: distinct_card)
  also have "\<dots> \<le> card {..<16 :: nat}" using s by (intro card_mono) auto
  finally show ?thesis by simp
qed

lemma spellable_count:
  assumes "distinct ws" "set ws \<subseteq> {w. spec_spellable b w}"
  shows "length ws \<le> path_bound 16"
proof -
  let ?S = "{p :: nat list. distinct p \<and> set p \<subseteq> {..<16}}"
  have S: "finite ?S" "card ?S \<le> path_bound 16"
    using distinct_lists_bound [of "{..<16 :: nat}" 16] by simp_all
  have "set ws \<subseteq> map b ` ?S"
    using assms(2) unfolding spec_spellable_def spec_walk_def by (auto simp: list_all_iff)
  then have "card (set ws) \<le> card (map b ` ?S)"
    using S(1) by (intro card_mono) auto
  also have "\<dots> \<le> card ?S" using S(1) by (rule card_image_le)
  finally show ?thesis using S(2) assms(1) by (simp add: distinct_card)
qed

lemma spellable_length: "spec_spellable b w \<Longrightarrow> length w \<le> 16"
  unfolding spec_spellable_def using spec_walk_length by auto

lemma sint_small_length:
  assumes "n \<le> 16"
  shows "sint (word_of_nat n :: cint) = int n"
proof -
  have "n \<in> set [0..<17]" using assms by simp
  then show ?thesis by (simp only: upt_conv_Cons upt_conv_Nil) (auto simp: eval_nat_numeral)
qed

lemma word_score_16: "sint (word_score 16) = 5400"
  by (simp add: word_score_def word_sless_alt)

lemma score_range:
  assumes "length w \<le> 16"
  shows "0 \<le> sint (word_score (word_of_nat (length w))) \<and>
         sint (word_score (word_of_nat (length w))) \<le> 5400"
proof -
  have s: "sint (word_of_nat (length w) :: cint) = int (length w)"
    using assms by (rule sint_small_length)
  have "sint (word_score (word_of_nat (length w))) \<le> sint (word_score 16)"
    using assms s by (intro word_score_mono) simp_all
  moreover have "0 \<le> sint (word_score (word_of_nat (length w)))"
    using assms s by (intro word_score_nonneg) simp
  ultimately show ?thesis by (simp add: word_score_16)
qed

lemma sint_scast_32_64: "sint (scast (x :: cint) :: 64 word) = sint x"
  by (rule sint_up_scast) (simp add: is_up)

lemma sint_add_exact_64:
  fixes a b :: "64 word"
  assumes "- (2 ^ 63) \<le> sint a + sint b" "sint a + sint b < 2 ^ 63"
  shows "sint (a + b) = sint a + sint b"
  using assms by (simp only: sint_word_add) (simp add: signed_take_bit_int_eq_self)

lemma fold_score_exact:
  fixes acc :: "64 word"
  assumes "\<forall>w \<in> set ws. length w \<le> 16" "0 \<le> sint acc"
    "sint acc + 5400 * int (length ws) < 2 ^ 63"
  shows "sint (fold (\<lambda>w total. total + scast (word_score (word_of_nat (length w)))) ws acc) =
           sint acc + sum_list (map score_of ws)"
  using assms
proof (induction ws arbitrary: acc)
  case Nil
  show ?case by simp
next
  case (Cons w ws)
  let ?s = "word_score (word_of_nat (length w))"
  have r: "0 \<le> sint ?s" "sint ?s \<le> 5400" using Cons.prems(1) score_range [of w] by simp_all
  have lo: "- (2 ^ 63) \<le> sint acc + sint (scast ?s :: 64 word)"
    using r Cons.prems(2) by (simp add: sint_scast_32_64)
  have hi: "sint acc + sint (scast ?s :: 64 word) < 2 ^ 63"
    using r Cons.prems(3) by (simp add: sint_scast_32_64)
  have "sint (acc + scast ?s) = sint acc + sint (scast ?s :: 64 word)"
    using lo hi by (rule sint_add_exact_64)
  then have step: "sint (acc + scast ?s) = sint acc + sint ?s"
    by (simp add: sint_scast_32_64)
  have "sint (fold (\<lambda>w total. total + scast (word_score (word_of_nat (length w)))) ws (acc + scast ?s)) =
      sint (acc + scast ?s) + sum_list (map score_of ws)"
  proof (rule Cons.IH)
    show "\<forall>w \<in> set ws. length w \<le> 16" using Cons.prems(1) by simp
    show "0 \<le> sint (acc + scast ?s)" using r Cons.prems(2) by (simp add: step)
    show "sint (acc + scast ?s) + 5400 * int (length ws) < 2 ^ 63"
      using r Cons.prems(3) by (simp add: step)
  qed
  moreover have "score_of w = sint ?s" by (simp add: score_of_def)
  ultimately show ?case by (simp add: step)
qed

lemma total_score_exact:
  assumes "\<forall>w \<in> set ws. length w \<le> 16" "length ws \<le> path_bound 16"
  shows "sint (total_score ws) = sum_list (map score_of ws)"
proof -
  have "5400 * int (length ws) \<le> 5400 * int (path_bound 16)"
    using assms(2) by simp
  also have "\<dots> < 2 ^ 63" by (simp add: path_bound_16)
  finally have "sint (0 :: 64 word) + 5400 * int (length ws) < 2 ^ 63" by simp
  from fold_score_exact [OF assms(1) _ this] show ?thesis
    by (simp add: total_score_def)
qed

section \<open>Parsing the board\<close>

lemma letters_eq: "letters s t = t @ map tolower (filter isalpha s)"
  by (induction s arbitrary: t) simp_all

lemma lower_letters: "list_all lower_letter (map tolower (filter isalpha s))"
  by (simp add: list_all_iff isalpha_tolower)

lemma rows_letters_lower:
  "rows_letters xs t = Inr t' \<Longrightarrow> list_all lower_letter t \<Longrightarrow> list_all lower_letter t'"
proof (induction xs arbitrary: t)
  case Nil
  then show ?case by simp
next
  case (Cons x xs)
  then obtain row where "cast_string x = Inr row" "rows_letters xs (letters row t) = Inr t'"
    by (auto split: sum.splits)
  with Cons.IH [of "letters row t"] Cons.prems(2) show ?case
    using lower_letters [of row] by (simp add: letters_eq)
qed

lemma cells_letters_lower:
  "cells_letters xs t = Inr t' \<Longrightarrow> list_all lower_letter t \<Longrightarrow>
     list_all lower_letter t' \<and> length t' = length t + length xs"
proof (induction xs arbitrary: t)
  case Nil
  then show ?case by simp
next
  case (Cons x xs)
  then obtain cell where c: "cast_string x = Inr cell" "length cell = 1" "isalpha (hd cell)"
      "cells_letters xs (t @ [tolower (hd cell)]) = Inr t'"
    by (auto split: sum.splits if_splits)
  from Cons.IH [OF c(4)] Cons.prems(2) c(3) show ?case
    by (simp add: isalpha_tolower)
qed

lemma valid_to_board:
  assumes "length t = 16" "list_all lower_letter t"
  shows "valid_board (to_board t)"
  using assms by (auto simp: valid_board_def to_board_def list_all_iff)

lemma parse_board_any_valid:
  assumes "parse_board_any obj = Inr b"
  shows "valid_board b"
proof (cases obj)
  case (Str s)
  with assms show ?thesis
    using lower_letters [of s]
    by (auto simp: parse_board_any_def Let_def letters_eq valid_to_board split: if_splits)
next
  case (Seq seq)
  show ?thesis
  proof (cases "length seq = 4 \<and> is_str (seq ! 0)")
    case True
    with assms Seq obtain t where "rows_letters seq [] = Inr t" "length t = 16" "b = to_board t"
      by (auto simp: parse_board_any_def split: sum.splits if_splits)
    with rows_letters_lower [of seq "[]" t] show ?thesis by (simp add: valid_to_board)
  next
    case False
    with assms Seq obtain t where "cells_letters seq [] = Inr t" "length seq = 16" "b = to_board t"
      by (auto simp: parse_board_any_def split: sum.splits if_splits)
    with cells_letters_lower [of seq "[]" t] show ?thesis by (simp add: valid_to_board)
  qed
next
  case Other
  with assms show ?thesis by (simp add: parse_board_any_def)
qed

section \<open>\<open>solve\<close>\<close>

lemma solve_correct:
  assumes "trie_inv (trie d)" "nbr d = build_neighbors_4x4" "parse_board_any obj = Inr b"
  shows "\<exists>ws. solve d obj = (d, Inr (ws, sum_list (map score_of ws))) \<and>
           distinct ws \<and> sorted_wrt solve_cmp ws \<and>
           set ws = {w. 3 \<le> length w \<and> trie_contains (trie d) w \<and> spec_spellable b w}"
proof -
  have nb: "nbr_ok (nbr d)" using assms(2) nbr_ok_build by simp
  from solve_loop_correct [OF assms(1) nb, of "[0..<16]" b "[]" "[]"]
  obtain found where loop: "solve_loop [0..<16] b d [] [] = Inr ([], found)"
    and found: "set found = (\<Union>i \<in> set [0..<16]. found_from b (nbr d) (trie d) {} 0 [] i)"
    and dist: "distinct found"
    by auto
  let ?ws = "sort_cmp found"
  have set_ws: "set ?ws = {w. 3 \<le> length w \<and> trie_contains (trie d) w \<and> spec_spellable b w}"
    unfolding set_sort_cmp found assms(2) found_from_all_cells ..
  have d_ws: "distinct ?ws" using dist by (rule distinct_sort_cmp)
  have "sint (total_score ?ws) = sum_list (map score_of ?ws)"
  proof (rule total_score_exact)
    show "\<forall>w \<in> set ?ws. length w \<le> 16" using set_ws spellable_length by auto
    show "length ?ws \<le> path_bound 16"
      using d_ws set_ws by (intro spellable_count [of _ b]) auto
  qed
  then have "solve d obj = (d, Inr (?ws, sum_list (map score_of ?ws)))"
    using assms(3) loop by (simp add: solve_def Let_def)
  with d_ws set_ws sorted_sort_cmp [OF dist] show ?thesis by blast
qed

lemma solve_cmp_spec_order: "solve_cmp = spec_order"
  by (auto simp: solve_cmp_def spec_order_def fun_eq_iff)

lemma dfs_no_error:
  "\<lbrakk>trie_inv t; nbr_ok nb; in_range t trieNode; cell < 16\<rbrakk> \<Longrightarrow>
     \<exists>out'. dfs_all_words cell usedMask trieNode b nb t cur outWords = Inr (cur, out')"
  "\<lbrakk>trie_inv t; nbr_ok nb; in_range t nxt; \<forall>to \<in> set tos. to < 16\<rbrakk> \<Longrightarrow>
     \<exists>out'. dfs_loop tos usedMask nxt b nb t cur outWords = Inr (cur, out')"
proof (induction cell usedMask trieNode b nb t cur outWords and tos usedMask nxt b nb t cur outWords
    rule: dfs_induct)
  case (dfs cell usedMask trieNode b nb t cur outWords)
  note inv = dfs.prems(1) and nb = dfs.prems(2) and node = dfs.prems(3) and cell = dfs.prems(4)
  have len: "cell < length nb" using nb cell by (simp add: nbr_ok_def)
  have tos: "\<forall>to \<in> set (nb ! cell). to < 16"
    using nb len unfolding nbr_ok_def by (metis nth_mem)
  show ?case
  proof (cases "lower_letter (b cell) \<and> child t trieNode (b cell) \<noteq> - 1")
    case False
    then show ?thesis using cell node by (subst dfs_all_words_unfold) auto
  next
    case True
    then have letter: "lower_letter (b cell)" and ne: "child t trieNode (b cell) \<noteq> - 1"
      by simp_all
    have n: "in_range t (child t trieNode (b cell))"
      using trie_inv_child [OF inv node] ne unfolding child_def by blast
    from dfs.IH [OF cell letter node ne n len inv nb n tos]
    show ?thesis
      using cell letter node ne n len
      by (subst dfs_all_words_unfold) (auto simp del: push_bit_of_1)
  qed
next
  case (nil usedMask nxt b nb t cur outWords)
  show ?case by simp
next
  case (cons to tos usedMask nxt b nb t cur outWords)
  note inv = cons.prems(1) and nb = cons.prems(2) and n = cons.prems(3)
  have to: "to < 16" and tos: "\<forall>to \<in> set tos. to < 16" using cons.prems(4) by simp_all
  show ?case
  proof (cases "bit usedMask to")
    case True
    from cons.IH(1) [OF True inv nb n tos] show ?thesis using True by simp
  next
    case False
    from cons.IH(2) [OF False inv nb n to]
    obtain out1 where one: "dfs_all_words to usedMask nxt b nb t cur outWords = Inr (cur, out1)"
      by blast
    from cons.IH(3) [OF False one inv nb n tos] show ?thesis
      using False one by simp
  qed
qed

lemma solve_loop_no_error:
  assumes "trie_inv (trie d)" "nbr_ok (nbr d)" "\<forall>i \<in> set cells. i < 16"
  shows "\<exists>found'. solve_loop cells b d cur found = Inr (cur, found')"
  using solve_loop_correct [OF assms] by blast

section \<open>Recursion depth\<close>

lemma dfs_fuel_Suc:
  "dfs_fuel (Suc n) cell usedMask trieNode b nb t cur outWords =
     (if 16 \<le> cell then Some (Inl OutOfBounds)
      else if \<not> lower_letter (b cell) then Some (Inr (cur, outWords))
      else if \<not> in_range t trieNode then Some (Inl OutOfBounds)
      else if child t trieNode (b cell) = - 1 then Some (Inr (cur, outWords))
      else if \<not> in_range t (child t trieNode (b cell)) then Some (Inl OutOfBounds)
      else if length nb \<le> cell then Some (Inl OutOfBounds)
      else
        (case dfs_loop_fuel n (nb ! cell) (usedMask OR push_bit cell 1) (child t trieNode (b cell))
                b nb t (cur @ [b cell])
                (record_word t (child t trieNode (b cell)) (cur @ [b cell]) outWords) of
           None \<Rightarrow> None
         | Some (Inl e) \<Rightarrow> Some (Inl e)
         | Some (Inr (cur'', outWords'')) \<Rightarrow> Some (Inr (butlast cur'', outWords''))))"
  by (simp add: Let_def lower_letter_index child_def record_word_def not_less not_le
        del: push_bit_of_1)

declare dfs_fuel.simps(2) [simp del]

lemma unused_le_16: "unused m \<le> 16"
proof -
  have "card {i. i < 16 \<and> \<not> bit m i} \<le> card {..<16 :: nat}"
    by (intro card_mono) auto
  then show ?thesis by (simp add: unused_def)
qed

lemma unused_marked_le_15:
  assumes "cell < 16" "bit m cell"
  shows "unused m \<le> 15"
proof -
  have "card {i. i < 16 \<and> \<not> bit m i} \<le> card ({..<16 :: nat} - {cell})"
    using assms by (intro card_mono) auto
  then show ?thesis using assms by (simp add: unused_def)
qed

lemma frames_le_16: "frames cell m \<le> 16"
  using unused_le_16 [of m] unused_marked_le_15 [of cell m] by (auto simp: frames_def)

lemma frames_pos: "0 < frames cell m"
proof (cases "cell < 16 \<and> \<not> bit m cell")
  case True
  then have "{i. i < 16 \<and> \<not> bit m i} \<noteq> {}" by blast
  moreover have "finite {i. i < 16 \<and> \<not> bit m i}" by simp
  ultimately have "0 < card {i. i < 16 \<and> \<not> bit m i}" using card_gt_0_iff by blast
  then show ?thesis using True by (simp add: frames_def unused_def)
next
  case False
  then show ?thesis by (auto simp: frames_def)
qed

lemma frames_child:
  assumes "cell < 16" "to < 16" "\<not> bit (m OR push_bit cell 1) to"
  shows "frames to (m OR push_bit cell 1) < frames cell m"
  using assms unused_mark [of cell m] unused_mark_le [of m cell]
  by (cases "bit m cell") (simp_all add: frames_def del: push_bit_of_1)

lemma dfs_fuel_enough:
  "\<lbrakk>nbr_ok nb; frames cell usedMask \<le> n\<rbrakk> \<Longrightarrow>
     dfs_fuel n cell usedMask trieNode b nb t cur outWords =
       Some (dfs_all_words cell usedMask trieNode b nb t cur outWords)"
  "\<lbrakk>nbr_ok nb; \<forall>to \<in> set tos. to < 16 \<and> (\<not> bit usedMask to \<longrightarrow> frames to usedMask \<le> n)\<rbrakk> \<Longrightarrow>
     dfs_loop_fuel n tos usedMask nxt b nb t cur outWords =
       Some (dfs_loop tos usedMask nxt b nb t cur outWords)"
proof (induction cell usedMask trieNode b nb t cur outWords and tos usedMask nxt b nb t cur outWords
    arbitrary: n and n rule: dfs_induct)
  case (dfs cell usedMask trieNode b nb t cur outWords)
  from dfs.prems(2) frames_pos [of cell usedMask] obtain n' where n: "n = Suc n'"
    by (cases n) auto
  show ?case
  proof (cases "cell < 16 \<and> lower_letter (b cell) \<and> in_range t trieNode \<and>
      child t trieNode (b cell) \<noteq> - 1 \<and> in_range t (child t trieNode (b cell)) \<and> cell < length nb")
    case False
    then show ?thesis
      unfolding n by (subst dfs_all_words_unfold, subst dfs_fuel_Suc) (simp only: not_less if_True if_False split: if_splits, auto)
  next
    case True
    then have g: "cell < 16" "lower_letter (b cell)" "in_range t trieNode"
      "child t trieNode (b cell) \<noteq> - 1" "in_range t (child t trieNode (b cell))" "cell < length nb"
      by simp_all
    have "nb ! cell \<in> set nb" using g(6) by simp
    then have tos: "\<forall>to \<in> set (nb ! cell). to < 16"
      using dfs.prems(1) unfolding nbr_ok_def by blast
    have need: "\<forall>to \<in> set (nb ! cell). to < 16 \<and>
        (\<not> bit (usedMask OR push_bit cell 1) to \<longrightarrow> frames to (usedMask OR push_bit cell 1) \<le> n')"
    proof (intro ballI conjI impI)
      fix to assume to: "to \<in> set (nb ! cell)"
      then show "to < 16" using tos by blast
      assume "\<not> bit (usedMask OR push_bit cell 1) to"
      with frames_child [OF g(1) \<open>to < 16\<close>]
      have "frames to (usedMask OR push_bit cell 1) < frames cell usedMask" by blast
      with dfs.prems(2) show "frames to (usedMask OR push_bit cell 1) \<le> n'"
        unfolding n by linarith
    qed
    from dfs.IH [OF g dfs.prems(1) need]
    show ?thesis
      unfolding n using g
      by (subst dfs_all_words_unfold, subst dfs_fuel_Suc)
         (simp del: push_bit_of_1 split: sum.splits)
  qed
next
  case (nil usedMask nxt b nb t cur outWords)
  show ?case by simp
next
  case (cons to tos usedMask nxt b nb t cur outWords)
  from cons.prems(2) have rest:
      "\<forall>to \<in> set tos. to < 16 \<and> (\<not> bit usedMask to \<longrightarrow> frames to usedMask \<le> n)"
    by simp
  show ?case
  proof (cases "bit usedMask to")
    case True
    with cons.IH(1) [OF True cons.prems(1) rest] show ?thesis by simp
  next
    case False
    with cons.prems(2) have "frames to usedMask \<le> n" by simp
    from cons.IH(2) [OF False cons.prems(1) this]
    have one: "dfs_fuel n to usedMask nxt b nb t cur outWords =
        Some (dfs_all_words to usedMask nxt b nb t cur outWords)" .
    show ?thesis
    proof (cases "dfs_all_words to usedMask nxt b nb t cur outWords")
      case (Inl e)
      with False one show ?thesis by simp
    next
      case (Inr s)
      obtain x y where s: "s = (x, y)" by (cases s)
      from cons.IH(3) [OF False Inr [unfolded s] cons.prems(1) rest]
      show ?thesis using False one Inr s by simp
    qed
  qed
qed

section \<open>Loading and rejecting\<close>














lemma load_tokens_none:
  "\<forall>tok \<in> set toks. \<not> spec_accepted tok \<Longrightarrow> load_tokens toks t = Inr t"
proof (induction toks)
  case Nil
  show ?case by simp
next
  case (Cons w toks)
  then have "\<not> code_accepted w" using code_accepted_spec by auto
  then have "\<not> (fst (scan_token w []) \<and> 3 \<le> int_cast (length (snd (scan_token w []))))"
    using scan_token_accepted [of w] by blast
  with Cons show ?case by (auto simp: case_prod_beta)
qed

lemma digit_not_alpha: "isdigit c \<Longrightarrow> \<not> isalpha c"
  by (auto simp: isdigit_def isalpha_def Let_def)

lemma solve_Str_wrong_count:
  assumes "length (filter isalpha s) \<noteq> 16"
  shows "solve d (Str s) = (d, Inl (RuntimeError ''board string must contain 16 letters''))"
  using assms by (simp add: solve_def parse_board_any_def letters_eq)

section \<open>Board generation\<close>

lemma letter_of_index:
  assumes "0 \<le> k" "k < 26"
  shows "lower_letter (char_of (97 + k :: int))"
proof -
  define n where "n = nat (97 + k)"
  have n: "97 \<le> n" "n \<le> 122" using assms by (simp_all add: n_def)
  have "97 + k = int n" using assms by (simp add: n_def)
  then have "char_of (97 + k) = char_of n" by simp
  moreover have "of_char (char_of n) = n" using n by simp
  ultimately show ?thesis using n by (simp add: lower_letter_def)
qed

lemma generate_loop_shape:
  assumes "\<forall>d g. 0 \<le> fst (dist_call d g) \<and> fst (dist_call d g) < 26"
  shows "length (fst (generate_loop n dist_call dist rng out)) = length out + n \<and>
         (list_all lower_letter out \<longrightarrow>
            list_all lower_letter (fst (generate_loop n dist_call dist rng out)))"
proof (induction n arbitrary: dist rng out)
  case 0
  show ?case by simp
next
  case (Suc n)
  obtain k dist' rng' where dc: "dist_call dist rng = (k, dist', rng')"
    by (cases "dist_call dist rng")
  then have "0 \<le> k" "k < 26" using assms [rule_format, of dist rng] by simp_all
  then have "lower_letter (char_of (97 + k))" by (rule letter_of_index)
  with Suc [of dist' rng' "out @ [char_of (97 + k)]"] dc show ?case
    by (simp add: random_letter_def)
qed

lemma generate_loop_deterministic:
  assumes "\<forall>d d' g. fst (dist_call d g) = fst (dist_call d' g) \<and>
             snd (snd (dist_call d g)) = snd (snd (dist_call d' g))"
  shows "fst (generate_loop n dist_call dist1 rng out) =
         fst (generate_loop n dist_call dist2 rng out)"
proof (induction n arbitrary: dist1 dist2 rng out)
  case 0
  show ?case by simp
next
  case (Suc n)
  obtain k1 d1 g1 where c1: "dist_call dist1 rng = (k1, d1, g1)" by (cases "dist_call dist1 rng")
  obtain k2 d2 g2 where c2: "dist_call dist2 rng = (k2, d2, g2)" by (cases "dist_call dist2 rng")
  from assms [rule_format, of dist1 rng dist2] c1 c2 have "k1 = k2" "g1 = g2" by simp_all
  with Suc [of d1 g1 "out @ [char_of (97 + k1)]" d2] c1 c2 show ?case
    by (simp add: random_letter_def)
qed

section \<open>The claims\<close>

text \<open>
  Claim C1: for every valid 16-letter board and every dictionary the trie was built from,
  \<open>solve\<close> returns exactly the distinct strings of length at least 3 that are in the
  trie and spellable by a self-avoiding walk over king-move-adjacent cells, each once. The
  board that \<open>parse_board_any\<close> yields is valid; the words of the trie are accepted
  tokens of the word list, lowercased, and all of them when no token has \<open>2^31\<close>
  characters or more.
\<close>

theorem solve_returns_exactly_the_words:
  assumes "Dictionary fs dict_path = Inr d" "parse_board_any board_obj = Inr b"
  shows "valid_board b \<and>
         (\<exists>ws total. snd (solve d board_obj) = Inr (ws, total) \<and> distinct ws \<and>
            set ws = {w. 3 \<le> length w \<and> trie_contains (trie d) w \<and> spec_spellable b w}) \<and>
         (\<exists>content. fs dict_path = Some content \<and>
            (\<forall>w. trie_contains (trie d) w \<longrightarrow>
                   w \<in> spec_dictionary_words (tokens_from content [])) \<and>
            ((\<forall>tok \<in> set (tokens_from content []). length tok < 2 ^ 31) \<longrightarrow>
               (\<forall>w. trie_contains (trie d) w \<longleftrightarrow>
                      w \<in> spec_dictionary_words (tokens_from content []))))"
proof -
  from Dictionary_inv [OF assms(1)] have "nbr d = build_neighbors_4x4" "trie_inv (trie d)"
    by simp_all
  from solve_correct [OF this(2,1) assms(2)]
  have "\<exists>ws total. snd (solve d board_obj) = Inr (ws, total) \<and> distinct ws \<and>
      set ws = {w. 3 \<le> length w \<and> trie_contains (trie d) w \<and> spec_spellable b w}"
    by auto
  moreover from Dictionary_Inr [OF assms(1)] obtain content where c: "fs dict_path = Some content"
    by blast
  from Dictionary_sound [OF assms(1) c]
  have words: "\<forall>w. trie_contains (trie d) w \<longleftrightarrow>
      w \<in> code_dictionary_words (tokens_from content [])"
    by simp
  have sub: "\<forall>w. trie_contains (trie d) w \<longrightarrow> w \<in> spec_dictionary_words (tokens_from content [])"
    using words code_accepted_spec
    unfolding code_dictionary_words_def spec_dictionary_words_def by blast
  have eq: "\<forall>w. trie_contains (trie d) w \<longleftrightarrow> w \<in> spec_dictionary_words (tokens_from content [])"
    if "\<forall>tok \<in> set (tokens_from content []). length tok < 2 ^ 31"
    using words code_dictionary_words_eq [OF that] by simp
  from c sub eq have "\<exists>content. fs dict_path = Some content \<and>
      (\<forall>w. trie_contains (trie d) w \<longrightarrow> w \<in> spec_dictionary_words (tokens_from content [])) \<and>
      ((\<forall>tok \<in> set (tokens_from content []). length tok < 2 ^ 31) \<longrightarrow>
         (\<forall>w. trie_contains (trie d) w \<longleftrightarrow> w \<in> spec_dictionary_words (tokens_from content [])))"
    by blast
  ultimately show ?thesis using parse_board_any_valid [OF assms(2)] by blast
qed

theorem solve_returns_exactly_the_words_witness:
  "Dictionary [''words.txt'' \<mapsto> ''cat cats c4t Dog ab''] ''words.txt'' =
     Inr (projr (Dictionary [''words.txt'' \<mapsto> ''cat cats c4t Dog ab''] ''words.txt'')) \<and>
   parse_board_any (Seq [Str ''cats'', Str ''xtxx'', Str ''xogx'', Str ''xxdx'']) =
     Inr (to_board ''catsxtxxxogxxxdx'') \<and>
   snd (solve (projr (Dictionary [''words.txt'' \<mapsto> ''cat cats c4t Dog ab''] ''words.txt''))
          (Seq [Str ''cats'', Str ''xtxx'', Str ''xogx'', Str ''xxdx''])) =
     Inr ([''cats'', ''cat'', ''dog''], 600) \<and>
   spec_walk [0, 1, 2] \<and> map (to_board ''catsxtxxxogxxxdx'') [0, 1, 2] = ''cat'' \<and>
   spec_walk [0, 1, 5] \<and> map (to_board ''catsxtxxxogxxxdx'') [0, 1, 5] = ''cat'' \<and>
   {w. 3 \<le> length w \<and>
       trie_contains
         (trie (projr (Dictionary [''words.txt'' \<mapsto> ''cat cats c4t Dog ab''] ''words.txt''))) w \<and>
       spec_spellable (to_board ''catsxtxxxogxxxdx'') w} = {''cats'', ''cat'', ''dog''}"
proof -
  let ?fs = "[''words.txt'' \<mapsto> ''cat cats c4t Dog ab'']"
  let ?obj = "Seq [Str ''cats'', Str ''xtxx'', Str ''xogx'', Str ''xxdx'']"
  have "\<not> isl (Dictionary ?fs ''words.txt'')" by code_simp
  then have d: "Dictionary ?fs ''words.txt'' = Inr (projr (Dictionary ?fs ''words.txt''))"
    by simp
  have b: "parse_board_any ?obj = Inr (to_board ''catsxtxxxogxxxdx'')"
    by (simp add: parse_board_any_def isalpha_def tolower_def)
  have r: "snd (solve (projr (Dictionary ?fs ''words.txt'')) ?obj) =
      Inr ([''cats'', ''cat'', ''dog''], 600)"
    by code_simp
  have w: "spec_walk [0, 1, 2]" "map (to_board ''catsxtxxxogxxxdx'') [0, 1, 2] = ''cat''"
      "spec_walk [0, 1, 5]" "map (to_board ''catsxtxxxogxxxdx'') [0, 1, 5] = ''cat''"
    by (simp_all add: spec_walk_def spec_adjacent_def to_board_def)
  from solve_returns_exactly_the_words [OF d b, THEN conjunct2, THEN conjunct1] r
  have "{w. 3 \<le> length w \<and> trie_contains (trie (projr (Dictionary ?fs ''words.txt''))) w \<and>
      spec_spellable (to_board ''catsxtxxxogxxxdx'') w} = {''cats'', ''cat'', ''dog''}"
    by auto
  then show ?thesis by (intro conjI d b r w)
qed

text \<open>
  Claim C2, as stated: a board string that yields only 15 letters, and a board string that
  contains a digit, make \<open>solve\<close> raise before any search. \<open>parse_board_any\<close> strips
  the characters that are no letters before it counts: a string of sixteen letters and a
  digit is a board, and \<open>solve\<close> returns its words.
\<close>

theorem digit_in_board_counterexample:
  "list_ex isdigit ''cats1xxxxxxxxxxxx'' \<and>
   snd (solve (projr (Dictionary [''words.txt'' \<mapsto> ''cat cats c4t Dog ab''] ''words.txt''))
          (Str ''cats1xxxxxxxxxxxx'')) = Inr ([''cats'', ''cat''], 500)"
  by code_simp

text \<open>
  Claim C2, amended: a board string whose letters, once the other characters are stripped,
  are not exactly 16 makes \<open>solve\<close> raise the invalid-board error, whatever the
  dictionary (so before any search: also on a dictionary on which the search itself would
  fail), and leaves the dictionary as it was; in particular a string that yields 15
  letters and a string of 16 characters that contains a digit.
\<close>

theorem invalid_board_string_raises:
  "(length (filter isalpha s) \<noteq> 16 \<longrightarrow>
      solve d (Str s) = (d, Inl (RuntimeError ''board string must contain 16 letters''))) \<and>
   (length (filter isalpha s) = 15 \<longrightarrow>
      solve d (Str s) = (d, Inl (RuntimeError ''board string must contain 16 letters''))) \<and>
   (length s = 16 \<and> list_ex isdigit s \<longrightarrow>
      solve d (Str s) = (d, Inl (RuntimeError ''board string must contain 16 letters'')))"
proof -
  have "length (filter isalpha s) \<noteq> 16" if "length s = 16" "list_ex isdigit s"
  proof -
    from that(2) obtain c where "c \<in> set s" "\<not> isalpha c"
      using digit_not_alpha by (auto simp: list_ex_iff)
    then have "length (filter isalpha s) < length s" by (rule length_filter_less)
    with that(1) show ?thesis by simp
  qed
  then show ?thesis using solve_Str_wrong_count [of s d] by auto
qed

theorem invalid_board_string_raises_witness:
  "length (filter isalpha ''catsxxxxxxxxxxx'') = 15 \<and>
   solve \<lparr>trie = [], nbr = []\<rparr> (Str ''catsxxxxxxxxxxx'') =
     (\<lparr>trie = [], nbr = []\<rparr>, Inl (RuntimeError ''board string must contain 16 letters'')) \<and>
   length ''cats1xxxxxxxxxxx'' = 16 \<and> list_ex isdigit ''cats1xxxxxxxxxxx'' \<and>
   solve \<lparr>trie = [], nbr = []\<rparr> (Str ''cats1xxxxxxxxxxx'') =
     (\<lparr>trie = [], nbr = []\<rparr>, Inl (RuntimeError ''board string must contain 16 letters'')) \<and>
   solve_loop [0..<16] (to_board ''catsxxxxxxxxxxxx'') \<lparr>trie = [], nbr = []\<rparr> [] [] =
     Inl OutOfBounds"
proof -
  have c: "solve_loop [0..<16] (to_board ''catsxxxxxxxxxxxx'') \<lparr>trie = [], nbr = []\<rparr> [] [] =
      Inl OutOfBounds"
    by code_simp
  have a: "length (filter isalpha ''catsxxxxxxxxxxx'') = 15"
    by (simp add: isalpha_def)
  have b: "length ''cats1xxxxxxxxxxx'' = 16 \<and> list_ex isdigit ''cats1xxxxxxxxxxx''"
    by (simp add: isdigit_def)
  from invalid_board_string_raises [of "''catsxxxxxxxxxxx''" "\<lparr>trie = [], nbr = []\<rparr>"]
    invalid_board_string_raises [of "''cats1xxxxxxxxxxx''" "\<lparr>trie = [], nbr = []\<rparr>"] a b c
  show ?thesis by blast
qed

text \<open>
  Claim C3, as stated: for every integer length \<open>L\<close>, \<open>word_score L\<close> is \<open>0\<close> below 3, the
  table from 3 to 7, \<open>2200 + 400 * (L - 8)\<close> from 8 on, and so non-decreasing. The
  parameter and the result are C++ \<open>int\<close>s: at \<open>L = 5368712\<close> the value
  \<open>2200 + 400 * (L - 8) = 2147483800\<close> is no \<open>int\<close>, the computation wraps to a negative
  number, and the score of 5368712 is below the score of 5368711.
\<close>

theorem word_score_overflow_counterexample:
  "8 \<le> sint (5368712 :: cint) \<and>
   sint (word_score 5368712) \<noteq> 2200 + 400 * (sint (5368712 :: cint) - 8) \<and>
   sint (5368711 :: cint) \<le> sint (5368712 :: cint) \<and>
   sint (word_score 5368712) < sint (word_score 5368711)"
  by (simp add: word_score_def word_sless_alt)

text \<open>
  Claim C3, amended: for every \<open>int\<close> length \<open>L\<close>, \<open>word_score L\<close> is \<open>0\<close> when \<open>L < 3\<close>, is
  the table value for \<open>L\<close> from 3 to 7, and is \<open>2200 + 400 * (L - 8)\<close> for
  \<open>8 \<le> L \<le> 5368711\<close>, the largest length whose score is an \<open>int\<close>; on the lengths up to
  5368711 \<open>word_score\<close> is non-decreasing.
\<close>

theorem word_score_amended:
  "(sint len < 3 \<longrightarrow> word_score len = 0) \<and>
   word_score 3 = 100 \<and> word_score 4 = 400 \<and> word_score 5 = 800 \<and>
   word_score 6 = 1400 \<and> word_score 7 = 1800 \<and>
   (8 \<le> sint len \<and> sint len \<le> 5368711 \<longrightarrow>
      sint (word_score len) = 2200 + 400 * (sint len - 8)) \<and>
   (sint a \<le> sint b \<and> sint b \<le> 5368711 \<longrightarrow> sint (word_score a) \<le> sint (word_score b))"
  using word_score_small [of len] word_score_large [of len] word_score_mono [of a b]
  by (simp add: word_score_table)

theorem word_score_amended_witness:
  "sint (2 :: cint) < 3 \<and> word_score 2 = 0 \<and>
   8 \<le> sint (10 :: cint) \<and> sint (10 :: cint) \<le> 5368711 \<and>
   sint (word_score 10) = 2200 + 400 * (sint (10 :: cint) - 8) \<and>
   sint (2 :: cint) \<le> sint (10 :: cint) \<and> sint (word_score 2) \<le> sint (word_score 10)"
  using word_score_amended [of 2 2 10] word_score_amended [of 10 2 10] by simp

text \<open>
  Claim C4: for every seed, two calls of \<open>generate_board_py\<close> return the same string,
  whatever state the \<open>thread_local\<close> distribution object is in at each call, and the
  string has 16 characters, all lowercase letters. The standard library is a parameter:
  the distribution draws an index from 0 to 25, and what it draws and how it advances the
  engine depend on the engine only.
\<close>

theorem generate_board_deterministic:
  assumes "\<forall>d g. 0 \<le> fst (dist_call d g) \<and> fst (dist_call d g) < 26"
    and "\<forall>d d' g. fst (dist_call d g) = fst (dist_call d' g) \<and>
           snd (snd (dist_call d g)) = snd (snd (dist_call d' g))"
  shows "fst (generate_board_py seed_engine dist_call dist1 seed) =
           fst (generate_board_py seed_engine dist_call dist2 seed) \<and>
         length (fst (generate_board_py seed_engine dist_call dist1 seed)) = 16 \<and>
         list_all lower_letter (fst (generate_board_py seed_engine dist_call dist1 seed))"
  using generate_loop_deterministic [OF assms(2), of 16 dist1 "seed_engine seed" "[]" dist2]
    generate_loop_shape [OF assms(1), of 16 dist1 "seed_engine seed" "[]"]
  by (simp add: generate_board_py_def)

theorem generate_board_deterministic_witness:
  "fst (generate_board_py (\<lambda>seed. unat seed) (\<lambda>(d :: nat) g. (int (g mod 26), d + 1, Suc g)) 0 5) =
     fst (generate_board_py (\<lambda>seed. unat seed) (\<lambda>(d :: nat) g. (int (g mod 26), d + 1, Suc g)) 16 5) \<and>
   fst (generate_board_py (\<lambda>seed. unat seed) (\<lambda>(d :: nat) g. (int (g mod 26), d + 1, Suc g)) 0 5) =
     ''fghijklmnopqrstu''"
proof -
  let ?dc = "\<lambda>(d :: nat) (g :: nat). (int (g mod 26), d + 1, Suc g)"
  have r: "\<forall>d g. 0 \<le> fst (?dc d g) \<and> fst (?dc d g) < 26" by simp
  have s: "\<forall>d d' g. fst (?dc d g) = fst (?dc d' g) \<and> snd (snd (?dc d g)) = snd (snd (?dc d' g))"
    by simp
  have v: "fst (generate_board_py (\<lambda>seed. unat seed) ?dc 0 5) = ''fghijklmnopqrstu''"
    by code_simp
  from generate_board_deterministic [OF r s, of "\<lambda>seed. unat seed" 0 5 16] v
  show ?thesis by simp
qed

text \<open>
  Claim C5: the words that \<open>solve\<close> returns are sorted by descending length and, among
  words of equal length, in ascending lexical order; the total is the sum of
  \<open>word_score(len(w))\<close> over the distinct returned words.
\<close>

theorem solve_sorted_and_scored:
  assumes "Dictionary fs dict_path = Inr d" "parse_board_any board_obj = Inr b"
  shows "\<exists>ws total. snd (solve d board_obj) = Inr (ws, total) \<and>
           sorted_wrt spec_order ws \<and> distinct ws \<and>
           total = (\<Sum>w \<in> set ws. score_of w)"
proof -
  from Dictionary_inv [OF assms(1)] have "nbr d = build_neighbors_4x4" "trie_inv (trie d)"
    by simp_all
  from solve_correct [OF this(2,1) assms(2)]
  obtain ws where ws: "solve d board_obj = (d, Inr (ws, sum_list (map score_of ws)))"
      "distinct ws" "sorted_wrt solve_cmp ws"
    by blast
  have "sum_list (map score_of ws) = (\<Sum>w \<in> set ws. score_of w)"
    using ws(2) by (rule sum_list_distinct_conv_sum_set)
  with ws show ?thesis by (simp add: solve_cmp_spec_order)
qed

theorem solve_sorted_and_scored_witness:
  "Dictionary [''words.txt'' \<mapsto> ''tac cat act cats''] ''words.txt'' =
     Inr (projr (Dictionary [''words.txt'' \<mapsto> ''tac cat act cats''] ''words.txt'')) \<and>
   parse_board_any (Str ''caxx tsxx xxxx xxxx'') = Inr (to_board ''caxxtsxxxxxxxxxx'') \<and>
   snd (solve (projr (Dictionary [''words.txt'' \<mapsto> ''tac cat act cats''] ''words.txt''))
          (Str ''caxx tsxx xxxx xxxx'')) =
     Inr ([''cats'', ''act'', ''cat'', ''tac''], 700) \<and>
   sorted_wrt spec_order [''cats'', ''act'', ''cat'', ''tac''] \<and>
   (\<Sum>w \<in> set [''cats'', ''act'', ''cat'', ''tac'']. score_of w) = 700"
proof -
  let ?fs = "[''words.txt'' \<mapsto> ''tac cat act cats'']"
  let ?obj = "Str ''caxx tsxx xxxx xxxx''"
  have "\<not> isl (Dictionary ?fs ''words.txt'')" by code_simp
  then have d: "Dictionary ?fs ''words.txt'' = Inr (projr (Dictionary ?fs ''words.txt''))"
    by simp
  have b: "parse_board_any ?obj = Inr (to_board ''caxxtsxxxxxxxxxx'')"
    by (simp add: parse_board_any_def isalpha_def tolower_def)
  have r: "snd (solve (projr (Dictionary ?fs ''words.txt'')) ?obj) =
      Inr ([''cats'', ''act'', ''cat'', ''tac''], 700)"
    by code_simp
  from solve_sorted_and_scored [OF d b] r
  have "sorted_wrt spec_order [''cats'', ''act'', ''cat'', ''tac'']"
    and "(\<Sum>w \<in> set [''cats'', ''act'', ''cat'', ''tac'']. score_of w) = 700"
    by auto
  then show ?thesis by (intro conjI d b r)
qed

text \<open>
  Claim C6: whatever the cell, the mask, the trie node and the path string, a call of
  \<open>dfs_all_words\<close> that returns leaves the path string \<open>cur\<close> as it was at entry, also
  on the two early returns (a letter outside \<open>a..z\<close>, an absent child); and so does the
  loop over the neighbours. \<open>usedMask\<close> is passed by value: the callee has no access to
  the caller's copy. Hence every sibling in the loop starts from the path string and the
  mask that the first one started from.
\<close>

theorem dfs_restores_path_string:
  "(dfs_all_words cell usedMask trieNode b nb t cur outWords = Inr (cur', outWords') \<longrightarrow>
      cur' = cur) \<and>
   (dfs_loop tos usedMask nxt b nb t cur outWords = Inr (cur', outWords') \<longrightarrow> cur' = cur) \<and>
   (cell < 16 \<and> \<not> lower_letter (b cell) \<longrightarrow>
      dfs_all_words cell usedMask trieNode b nb t cur outWords = Inr (cur, outWords)) \<and>
   (cell < 16 \<and> lower_letter (b cell) \<and> in_range t trieNode \<and>
    next' (t ! nat trieNode) (nat (char_code (b cell) - 97)) = - 1 \<longrightarrow>
      dfs_all_words cell usedMask trieNode b nb t cur outWords = Inr (cur, outWords)) \<and>
   dfs_loop (to # tos) usedMask nxt b nb t cur outWords =
     (if bit usedMask to then dfs_loop tos usedMask nxt b nb t cur outWords
      else (case dfs_all_words to usedMask nxt b nb t cur outWords of
              Inl e \<Rightarrow> Inl e
            | Inr s \<Rightarrow> dfs_loop tos usedMask nxt b nb t cur (snd s)))"
proof (intro conjI impI)
  assume "dfs_all_words cell usedMask trieNode b nb t cur outWords = Inr (cur', outWords')"
  then show "cur' = cur" by (rule dfs_all_words_cur)
next
  assume "dfs_loop tos usedMask nxt b nb t cur outWords = Inr (cur', outWords')"
  then show "cur' = cur" by (rule dfs_loop_cur)
next
  assume "cell < 16 \<and> \<not> lower_letter (b cell)"
  then show "dfs_all_words cell usedMask trieNode b nb t cur outWords = Inr (cur, outWords)"
    by (subst dfs_all_words_unfold) simp
next
  assume "cell < 16 \<and> lower_letter (b cell) \<and> in_range t trieNode \<and>
    next' (t ! nat trieNode) (nat (char_code (b cell) - 97)) = - 1"
  then show "dfs_all_words cell usedMask trieNode b nb t cur outWords = Inr (cur, outWords)"
    by (subst dfs_all_words_unfold) (simp add: child_def)
next
  show "dfs_loop (to # tos) usedMask nxt b nb t cur outWords =
     (if bit usedMask to then dfs_loop tos usedMask nxt b nb t cur outWords
      else (case dfs_all_words to usedMask nxt b nb t cur outWords of
              Inl e \<Rightarrow> Inl e
            | Inr s \<Rightarrow> dfs_loop tos usedMask nxt b nb t cur (snd s)))"
    using dfs_all_words_cur [of to usedMask nxt b nb t cur outWords]
    by (auto split: sum.splits)
qed

theorem dfs_restores_path_string_witness:
  "dfs_all_words 0 0 0 (to_board ''catsxxxxxxxxxxxx'') build_neighbors_4x4
     (trie (projr (Dictionary [''words.txt'' \<mapsto> ''cat cats c4t Dog ab''] ''words.txt'')))
     ''pre'' [''old''] = Inr (''pre'', [''precats'', ''precat'', ''old'']) \<and>
   dfs_loop [1, 4, 5] 1 1 (to_board ''catsxxxxxxxxxxxx'') build_neighbors_4x4
     (trie (projr (Dictionary [''words.txt'' \<mapsto> ''cat cats c4t Dog ab''] ''words.txt'')))
     ''c'' [] = Inr (''c'', [''cats'', ''cat'']) \<and>
   (4 :: nat) < 16 \<and> \<not> lower_letter (to_board ''cats1xxxxxxxxxxx'' 4) \<and>
   dfs_all_words 4 0 0 (to_board ''cats1xxxxxxxxxxx'') build_neighbors_4x4
     (trie (projr (Dictionary [''words.txt'' \<mapsto> ''cat cats c4t Dog ab''] ''words.txt'')))
     ''pre'' [''old''] = Inr (''pre'', [''old''])"
proof -
  let ?t = "trie (projr (Dictionary [''words.txt'' \<mapsto> ''cat cats c4t Dog ab''] ''words.txt''))"
  have a: "dfs_all_words 0 0 0 (to_board ''catsxxxxxxxxxxxx'') build_neighbors_4x4 ?t
     ''pre'' [''old''] = Inr (''pre'', [''precats'', ''precat'', ''old''])"
    by code_simp
  have l: "dfs_loop [1, 4, 5] 1 1 (to_board ''catsxxxxxxxxxxxx'') build_neighbors_4x4 ?t
     ''c'' [] = Inr (''c'', [''cats'', ''cat''])"
    by code_simp
  have p: "(4 :: nat) < 16 \<and> \<not> lower_letter (to_board ''cats1xxxxxxxxxxx'' 4)"
    by (simp add: to_board_def lower_letter_def)
  from dfs_restores_path_string [of 4 0 0 "to_board ''cats1xxxxxxxxxxx''" build_neighbors_4x4 ?t
      "''pre''" "[''old'']" "''pre''" "[''old'']" "[]" 0] p a l
  show ?thesis by blast
qed

text \<open>
  Claim C7: the search terminates, with recursion depth at most 16. \<open>dfs_all_words\<close> is
  a total function (its termination is proved above); sixteen nested frames are enough
  for every call over the adjacency table, whatever the board, the trie, the mask and the
  starting cell; and a call on an unmarked cell marks it, which lowers the number of
  unmarked cells.
\<close>

theorem dfs_depth_bounded_by_16:
  "dfs_fuel 16 cell usedMask trieNode b build_neighbors_4x4 t cur outWords =
     Some (dfs_all_words cell usedMask trieNode b build_neighbors_4x4 t cur outWords) \<and>
   (cell < 16 \<and> \<not> bit usedMask cell \<longrightarrow>
      unused (usedMask OR push_bit cell 1) < unused usedMask)"
  using dfs_fuel_enough(1) [OF nbr_ok_build, of cell usedMask 16 trieNode b t cur outWords]
    frames_le_16 [of cell usedMask] unused_mark [of cell usedMask]
  by simp

theorem dfs_depth_bounded_by_16_witness:
  "dfs_fuel 16 0 0 0 (to_board ''catsxxxxxxxxxxxx'') build_neighbors_4x4
     (trie (projr (Dictionary [''words.txt'' \<mapsto> ''cat cats c4t Dog ab''] ''words.txt''))) [] [] =
     Some (Inr ([], [''cats'', ''cat''])) \<and>
   (0 :: nat) < 16 \<and> \<not> bit (0 :: 16 word) (0 :: nat) \<and>
   unused (0 OR push_bit 0 1) < unused 0"
proof -
  let ?t = "trie (projr (Dictionary [''words.txt'' \<mapsto> ''cat cats c4t Dog ab''] ''words.txt''))"
  have a: "dfs_all_words 0 0 0 (to_board ''catsxxxxxxxxxxxx'') build_neighbors_4x4 ?t [] [] =
      Inr ([], [''cats'', ''cat''])"
    by code_simp
  from dfs_depth_bounded_by_16 [of 0 0 0 "to_board ''catsxxxxxxxxxxxx''" ?t "[]" "[]"] a
  show ?thesis by simp
qed

text \<open>
  Claim C8: on a dictionary that the constructor built, the search raises no error for
  any board array, whatever its sixteen characters: the loop of \<open>solve\<close> over the sixteen
  start cells returns, every call of \<open>dfs_all_words\<close> on a cell of the board and a node
  of the trie returns (no index leaves its container), and a cell whose letter is outside
  \<open>a..z\<close> makes the call return at once, in its own frame, with nothing changed.
\<close>

theorem search_never_raises:
  assumes "Dictionary fs dict_path = Inr d"
  shows "(\<exists>found. solve_loop [0..<16] b d [] [] = Inr ([], found)) \<and>
         (cell < 16 \<and> in_range (trie d) trieNode \<longrightarrow>
            (\<exists>outWords'. dfs_all_words cell usedMask trieNode b (nbr d) (trie d) cur outWords =
               Inr (cur, outWords'))) \<and>
         (cell < 16 \<and> \<not> lower_letter (b cell) \<longrightarrow>
            dfs_fuel 1 cell usedMask trieNode b (nbr d) (trie d) cur outWords =
              Some (Inr (cur, outWords)))"
proof -
  from Dictionary_inv [OF assms] have nb: "nbr_ok (nbr d)" and inv: "trie_inv (trie d)"
    using nbr_ok_build by simp_all
  have "\<exists>found. solve_loop [0..<16] b d [] [] = Inr ([], found)"
    using solve_loop_no_error [OF inv nb] by simp
  moreover have "\<exists>outWords'. dfs_all_words cell usedMask trieNode b (nbr d) (trie d) cur outWords =
      Inr (cur, outWords')" if "cell < 16" "in_range (trie d) trieNode"
    using dfs_no_error(1) [OF inv nb that(2,1)] .
  moreover have "dfs_fuel 1 cell usedMask trieNode b (nbr d) (trie d) cur outWords =
      Some (Inr (cur, outWords))" if "cell < 16" "\<not> lower_letter (b cell)"
    using that unfolding One_nat_def by (subst dfs_fuel_Suc) simp
  ultimately show ?thesis by blast
qed

theorem search_never_raises_witness:
  "Dictionary [''words.txt'' \<mapsto> ''cat cats c4t Dog ab''] ''words.txt'' =
     Inr (projr (Dictionary [''words.txt'' \<mapsto> ''cat cats c4t Dog ab''] ''words.txt'')) \<and>
   solve_loop [0..<16] (to_board ''cat5 -Dog; x{}~!'')
     (projr (Dictionary [''words.txt'' \<mapsto> ''cat cats c4t Dog ab''] ''words.txt'')) [] [] =
     Inr ([], [''cat'']) \<and>
   (3 :: nat) < 16 \<and> \<not> lower_letter (to_board ''cat5 -Dog; x{}~!'' 3) \<and>
   dfs_fuel 1 3 0 0 (to_board ''cat5 -Dog; x{}~!'')
     (nbr (projr (Dictionary [''words.txt'' \<mapsto> ''cat cats c4t Dog ab''] ''words.txt'')))
     (trie (projr (Dictionary [''words.txt'' \<mapsto> ''cat cats c4t Dog ab''] ''words.txt'')))
     [] [] = Some (Inr ([], []))"
proof -
  let ?fs = "[''words.txt'' \<mapsto> ''cat cats c4t Dog ab'']"
  have "\<not> isl (Dictionary ?fs ''words.txt'')" by code_simp
  then have d: "Dictionary ?fs ''words.txt'' = Inr (projr (Dictionary ?fs ''words.txt''))"
    by simp
  have r: "solve_loop [0..<16] (to_board ''cat5 -Dog; x{}~!'')
      (projr (Dictionary ?fs ''words.txt'')) [] [] = Inr ([], [''cat''])"
    by code_simp
  have p: "(3 :: nat) < 16 \<and> \<not> lower_letter (to_board ''cat5 -Dog; x{}~!'' 3)"
    by (simp add: to_board_def lower_letter_def)
  from search_never_raises [OF d, of "to_board ''cat5 -Dog; x{}~!''" 3 0 0 "[]" "[]"] d r p
  show ?thesis by blast
qed




text \<open>
  Claim C10: when no token of a readable word list passes the filter, the constructor
  succeeds and leaves a trie with the root node only, and \<open>solve\<close> on any board that
  parses returns the empty word list and the score 0.
\<close>

theorem empty_dictionary_finds_nothing:
  assumes "fs dict_path = Some content"
    and "\<forall>tok \<in> set (tokens_from content []). \<not> spec_accepted tok"
  shows "Dictionary fs dict_path = Inr \<lparr>trie = [Node], nbr = build_neighbors_4x4\<rparr> \<and>
         (parse_board_any board_obj = Inr b \<longrightarrow>
            snd (solve \<lparr>trie = [Node], nbr = build_neighbors_4x4\<rparr> board_obj) = Inr ([], 0))"
proof -
  let ?d = "\<lparr>trie = [Node], nbr = build_neighbors_4x4\<rparr>"
  have d: "Dictionary fs dict_path = Inr ?d"
    using assms load_tokens_none [of "tokens_from content []" Trie]
    by (simp add: Dictionary_def Trie_def)
  have "snd (solve ?d board_obj) = Inr ([], 0)" if b: "parse_board_any board_obj = Inr b"
  proof -
    have "trie_inv (trie ?d)" "nbr ?d = build_neighbors_4x4"
      using trie_inv_Trie by (simp_all add: Trie_def)
    from solve_correct [OF this b]
    obtain ws where ws: "solve ?d board_obj = (?d, Inr (ws, sum_list (map score_of ws)))"
      "set ws = {w. 3 \<le> length w \<and> trie_contains (trie ?d) w \<and> spec_spellable b w}"
      by blast
    have "set ws = {}"
      unfolding ws(2) using trie_contains_Trie by (simp add: Trie_def)
    then have "ws = []" by simp
    with ws(1) show ?thesis by simp
  qed
  with d show ?thesis by blast
qed

theorem empty_dictionary_finds_nothing_witness:
  "[''words.txt'' \<mapsto> ''ab c4t 12 x''] ''words.txt'' = Some ''ab c4t 12 x'' \<and>
   tokens_from ''ab c4t 12 x'' [] = [''ab'', ''c4t'', ''12'', ''x''] \<and>
   list_all (\<lambda>tok. \<not> spec_accepted tok) [''ab'', ''c4t'', ''12'', ''x''] \<and>
   Dictionary [''words.txt'' \<mapsto> ''ab c4t 12 x''] ''words.txt'' =
     Inr \<lparr>trie = [Node], nbr = build_neighbors_4x4\<rparr> \<and>
   parse_board_any (Str ''catsxxxxxxxxxxxx'') = Inr (to_board ''catsxxxxxxxxxxxx'') \<and>
   snd (solve \<lparr>trie = [Node], nbr = build_neighbors_4x4\<rparr> (Str ''catsxxxxxxxxxxxx'')) =
     Inr ([], 0)"
proof -
  have f: "[''words.txt'' \<mapsto> ''ab c4t 12 x''] ''words.txt'' = Some ''ab c4t 12 x''"
    by simp
  have t: "tokens_from ''ab c4t 12 x'' [] = [''ab'', ''c4t'', ''12'', ''x'']"
    by (simp add: isspace_def)
  have n: "list_all (\<lambda>tok. \<not> spec_accepted tok) [''ab'', ''c4t'', ''12'', ''x'']"
    by (simp add: spec_accepted_def isalpha_def)
  then have n': "\<forall>tok \<in> set (tokens_from ''ab c4t 12 x'' []). \<not> spec_accepted tok"
    unfolding t by (simp add: list_all_iff)
  have b: "parse_board_any (Str ''catsxxxxxxxxxxxx'') = Inr (to_board ''catsxxxxxxxxxxxx'')"
    by (simp add: parse_board_any_def isalpha_def tolower_def)
  from empty_dictionary_finds_nothing [of "[''words.txt'' \<mapsto> ''ab c4t 12 x'']" "''words.txt''"
      "''ab c4t 12 x''" "Str ''catsxxxxxxxxxxxx''" "to_board ''catsxxxxxxxxxxxx''"] f n' b
  have "Dictionary [''words.txt'' \<mapsto> ''ab c4t 12 x''] ''words.txt'' =
      Inr \<lparr>trie = [Node], nbr = build_neighbors_4x4\<rparr>"
    and "snd (solve \<lparr>trie = [Node], nbr = build_neighbors_4x4\<rparr> (Str ''catsxxxxxxxxxxxx'')) =
      Inr ([], 0)"
    by blast+
  then show ?thesis by (intro conjI f t n b)
qed

end
